theory Spec2Isabelle
  imports Main "HOL-Library.AList" "HOL-Library.Product_Lexorder"
begin

section \<open>The best-first frontier of bestfirst.py\<close>

text \<open>
  A shallow embedding of \<^verbatim>\<open>src/bestfirst.py\<close>: the class \<^verbatim>\<open>PriorityQueue\<close>
  (a binary heap with lazy invalidation and an index from payloads to heap entries), the
  class \<^verbatim>\<open>FrontierBestFirst\<close> built on it, and its two subclasses
  \<^verbatim>\<open>FrontierAStar\<close> and \<^verbatim>\<open>FrontierGreedy\<close>.

  Every method takes the object and returns it updated. A method that can raise returns
  the exception (\<open>Inl\<close>) or its result (\<open>Inr\<close>) together with the object as the
  exception leaves it, since the object outlives a caught exception.
\<close>

subsection \<open>Exceptions\<close>

datatype error = IndexError | KeyError | TypeError

subsection \<open>States\<close>

text \<open>
  Modelled from the spec: the class \<^verbatim>\<open>HospitalState\<close> of the module
  \<^verbatim>\<open>domains.hospital.state\<close>, which is imported by the source and not part of it.
  The spec asks of a state "value equality and a stable hash/identity so it can serve as a
  map key" and "a way to obtain accumulated path cost". The field \<open>ident\<close> is what
  \<^verbatim>\<open>__eq__\<close> and \<^verbatim>\<open>__hash__\<close> observe; \<open>path_cost\<close> is the attribute
  \<^verbatim>\<open>state.path_cost\<close>. Two state objects may be equal as dictionary keys and
  differ in their path cost.
\<close>

record 'k HospitalState =
  ident :: 'k
  path_cost :: int

subsection \<open>PriorityQueue\<close>

text \<open>
  An entry is the three-element Python list \<^verbatim>\<open>[priority, -count, element]\<close>; the
  third position is \<^verbatim>\<open>None\<close> once the entry is invalidated.
\<close>

record 'k entry =
  priority :: int
  order_key :: int
  element :: "'k HospitalState option"

text \<open>
  The entry lists are mutable objects shared by \<^verbatim>\<open>self.heap\<close> and
  \<^verbatim>\<open>self.entry_finder\<close>, so both hold references into an object store:
  \<open>store\<close> maps a reference to the entry it denotes and \<open>fresh\<close> is the next unused
  reference. \<open>heap\<close> is the list given to \<^verbatim>\<open>heapq\<close>, \<open>entry_finder\<close> is the
  dictionary (an association list with one pair for each key, the key being the
  \<open>ident\<close> of the state), and \<open>counter\<close> is the next value of
  \<^verbatim>\<open>itertools.count()\<close>.
\<close>

type_synonym ref = nat

record 'k PriorityQueue =
  store :: "ref \<Rightarrow> 'k entry"
  fresh :: ref
  heap :: "ref list"
  entry_finder :: "('k \<times> ref) list"
  counter :: nat

definition PriorityQueue_init :: "'k PriorityQueue" where
  "PriorityQueue_init =
     \<lparr>store = (\<lambda>_. \<lparr>priority = 0, order_key = 0, element = None\<rparr>), fresh = 0,
      heap = [], entry_finder = [], counter = 0\<rparr>"

text \<open>
  Python compares two entry lists position by position, so the heap is ordered by the
  pair (priority, order key), lexicographically. The third position is compared only
  when both numbers agree.
\<close>

definition entry_key :: "(ref \<Rightarrow> 'k entry) \<Rightarrow> ref \<Rightarrow> int \<times> int" where
  "entry_key st a = (priority (st a), order_key (st a))"

text \<open>
  The module \<^verbatim>\<open>heapq\<close> belongs to the standard library. It is modelled by its
  contract: \<^verbatim>\<open>heappush\<close> puts an item into the heap, \<^verbatim>\<open>heappop\<close> removes and
  returns the least item and raises \<^verbatim>\<open>IndexError\<close> on an empty heap.
\<close>

definition heappush :: "ref list \<Rightarrow> ref \<Rightarrow> ref list" where
  "heappush h a = h @ [a]"

definition heappop :: "(ref \<Rightarrow> 'k entry) \<Rightarrow> ref list \<Rightarrow> error + ref \<times> ref list" where
  "heappop st h =
     (if h = [] then Inl IndexError
      else let a = arg_min_list (entry_key st) h in Inr (a, remove1 a h))"

definition PriorityQueue_add ::
  "'k PriorityQueue \<Rightarrow> 'k HospitalState \<Rightarrow> int \<Rightarrow> 'k PriorityQueue" where
  "PriorityQueue_add q el p =
     (let count = counter q;
          entry = \<lparr>priority = p, order_key = - int count, element = Some el\<rparr>;
          a = fresh q
      in q\<lparr>store := (store q)(a := entry),
           fresh := Suc a,
           heap := heappush (heap q) a,
           entry_finder := AList.update (ident el) a (entry_finder q),
           counter := Suc count\<rparr>)"

definition change_priority ::
  "'k PriorityQueue \<Rightarrow> 'k HospitalState \<Rightarrow> int \<Rightarrow> (error + unit) \<times> 'k PriorityQueue" where
  "change_priority q el new_priority =
     (case map_of (entry_finder q) (ident el) of
        None \<Rightarrow> (Inl KeyError, q)
      | Some a \<Rightarrow>
          (let q1 = q\<lparr>entry_finder := AList.delete (ident el) (entry_finder q),
                      store := (store q)(a := (store q a)\<lparr>element := None\<rparr>)\<rparr>
           in (Inr (), PriorityQueue_add q1 el new_priority)))"

text \<open>
  The loop of \<^verbatim>\<open>pop\<close>: take entries off the heap until one is valid. It returns the
  entry found with its element, or the \<^verbatim>\<open>IndexError\<close> of \<^verbatim>\<open>heappop\<close>, and the
  heap that is left.
\<close>

function pop_loop ::
  "(ref \<Rightarrow> 'k entry) \<Rightarrow> ref list \<Rightarrow> (error + ref \<times> 'k HospitalState) \<times> ref list" where
  "pop_loop st h =
     (case heappop st h of
        Inl e \<Rightarrow> (Inl e, h)
      | Inr (a, h') \<Rightarrow>
          (case element (st a) of
             None \<Rightarrow> pop_loop st h'
           | Some s \<Rightarrow> (Inr (a, s), h')))"
  by pat_completeness auto
termination
  by (relation "measure (\<lambda>(st, h). length h)")
     (auto simp: heappop_def Let_def length_remove1 arg_min_list_in split: if_splits)

declare pop_loop.simps [simp del]

text \<open>
  After the loop, \<^verbatim>\<open>self.entry_finder.pop(state)\<close> raises \<^verbatim>\<open>KeyError\<close> when
  the state is not a key of the dictionary. The entries taken off the heap stay off it
  whichever way \<^verbatim>\<open>pop\<close> ends.
\<close>

definition PriorityQueue_pop ::
  "'k PriorityQueue \<Rightarrow> (error + 'k HospitalState) \<times> 'k PriorityQueue" where
  "PriorityQueue_pop q =
     (case pop_loop (store q) (heap q) of
        (Inl e, h') \<Rightarrow> (Inl e, q\<lparr>heap := h'\<rparr>)
      | (Inr (a, state), h') \<Rightarrow>
          (case map_of (entry_finder q) (ident state) of
             None \<Rightarrow> (Inl KeyError, q\<lparr>heap := h'\<rparr>)
           | Some _ \<Rightarrow>
               (Inr state,
                q\<lparr>heap := h', entry_finder := AList.delete (ident state) (entry_finder q)\<rparr>)))"

definition clear :: "'k PriorityQueue \<Rightarrow> 'k PriorityQueue" where
  "clear q = q\<lparr>heap := [], entry_finder := [], counter := 0\<rparr>"

definition PriorityQueue_size :: "'k PriorityQueue \<Rightarrow> nat" where
  "PriorityQueue_size q = length (entry_finder q)"

definition get_priority :: "'k PriorityQueue \<Rightarrow> 'k HospitalState \<Rightarrow> int option" where
  "get_priority q el =
     (case map_of (entry_finder q) (ident el) of
        None \<Rightarrow> None
      | Some a \<Rightarrow> Some (priority (store q a)))"

subsection \<open>FrontierBestFirst\<close>

text \<open>
  The goal description is opaque; the attribute is \<^verbatim>\<open>None\<close> until
  \<^verbatim>\<open>prepare\<close> binds it. The subclasses extend the record, and the methods below are
  written on the record scheme, so they are the methods the subclasses inherit.
\<close>

record ('k, 'g) FrontierBestFirst =
  goal_description :: "'g option"
  priority_queue :: "'k PriorityQueue"

definition FrontierBestFirst_init :: "('k, 'g) FrontierBestFirst" where
  "FrontierBestFirst_init = \<lparr>goal_description = None, priority_queue = PriorityQueue_init\<rparr>"

definition prepare ::
  "('k, 'g, 'z) FrontierBestFirst_scheme \<Rightarrow> 'g \<Rightarrow> ('k, 'g, 'z) FrontierBestFirst_scheme" where
  "prepare fr gd =
     fr\<lparr>goal_description := Some gd, priority_queue := clear (priority_queue fr)\<rparr>"

definition FrontierBestFirst_g :: "'k HospitalState \<Rightarrow> 'g option \<Rightarrow> int" where
  "FrontierBestFirst_g state gd = path_cost state"

definition FrontierBestFirst_h :: "'k HospitalState \<Rightarrow> 'g option \<Rightarrow> int" where
  "FrontierBestFirst_h state gd = 0"

text \<open>
  \<^verbatim>\<open>f\<close> names the two methods of the base class
  (\<^verbatim>\<open>FrontierBestFirst.h(self, ...)\<close>, \<^verbatim>\<open>FrontierBestFirst.g(self, ...)\<close>), so
  a subclass that overrides \<^verbatim>\<open>g\<close> or \<^verbatim>\<open>h\<close> does not change it.
\<close>

definition FrontierBestFirst_f :: "'k HospitalState \<Rightarrow> 'g option \<Rightarrow> int" where
  "FrontierBestFirst_f state gd = FrontierBestFirst_h state gd + FrontierBestFirst_g state gd"

definition FrontierBestFirst_contains ::
  "('k, 'g, 'z) FrontierBestFirst_scheme \<Rightarrow> 'k HospitalState \<Rightarrow> bool" where
  "FrontierBestFirst_contains fr state = (get_priority (priority_queue fr) state \<noteq> None)"

text \<open>
  In the second branch of \<^verbatim>\<open>add\<close> the source writes
  \<^verbatim>\<open>self.priority_queue.get_priority(self,state)\<close>: a bound method of the queue,
  which takes one argument, is called with two. Python raises \<^verbatim>\<open>TypeError\<close> at that
  call, before the comparison and before \<^verbatim>\<open>change_priority\<close>, so the branch ends
  there with the frontier as it was.
\<close>

definition FrontierBestFirst_add ::
  "('k, 'g, 'z) FrontierBestFirst_scheme \<Rightarrow> 'k HospitalState \<Rightarrow>
     (error + unit) \<times> ('k, 'g, 'z) FrontierBestFirst_scheme" where
  "FrontierBestFirst_add fr state =
     (if \<not> FrontierBestFirst_contains fr state
      then (Inr (),
            fr\<lparr>priority_queue :=
                 PriorityQueue_add (priority_queue fr) state
                   (FrontierBestFirst_f state (goal_description fr))\<rparr>)
      else (Inl TypeError, fr))"

definition FrontierBestFirst_pop ::
  "('k, 'g, 'z) FrontierBestFirst_scheme \<Rightarrow>
     (error + 'k HospitalState) \<times> ('k, 'g, 'z) FrontierBestFirst_scheme" where
  "FrontierBestFirst_pop fr =
     (case PriorityQueue_pop (priority_queue fr) of
        (r, q') \<Rightarrow> (r, fr\<lparr>priority_queue := q'\<rparr>))"

definition is_empty :: "('k, 'g, 'z) FrontierBestFirst_scheme \<Rightarrow> bool" where
  "is_empty fr = (PriorityQueue_size (priority_queue fr) = 0)"

definition FrontierBestFirst_size :: "('k, 'g, 'z) FrontierBestFirst_scheme \<Rightarrow> nat" where
  "FrontierBestFirst_size fr = PriorityQueue_size (priority_queue fr)"

subsection \<open>FrontierAStar and FrontierGreedy\<close>

text \<open>
  Both subclasses add the attribute \<^verbatim>\<open>heuristic\<close>, set by the constructor, and
  override \<^verbatim>\<open>g\<close> and \<^verbatim>\<open>h\<close>. The overriding methods call
  \<^verbatim>\<open>state.extract_plan\<close>, \<^verbatim>\<open>h_heuristics.HospitalZeroHeuristic\<close> and
  \<^verbatim>\<open>h_heuristics.HospitalAdvancedHeuristics\<close>, which live in modules outside the
  source; they are parameters here.
\<close>

record ('k, 'g) FrontierAStar = "('k, 'g) FrontierBestFirst" +
  heuristic :: "'k HospitalState \<Rightarrow> int"

record ('k, 'g) FrontierGreedy = "('k, 'g) FrontierBestFirst" +
  heuristic :: "'k HospitalState \<Rightarrow> int"

definition FrontierAStar_init :: "('k HospitalState \<Rightarrow> int) \<Rightarrow> ('k, 'g) FrontierAStar" where
  "FrontierAStar_init heur =
     \<lparr>goal_description = None, priority_queue = PriorityQueue_init,
      FrontierAStar.heuristic = heur\<rparr>"

definition FrontierGreedy_init :: "('k HospitalState \<Rightarrow> int) \<Rightarrow> ('k, 'g) FrontierGreedy" where
  "FrontierGreedy_init heur =
     \<lparr>goal_description = None, priority_queue = PriorityQueue_init,
      FrontierGreedy.heuristic = heur\<rparr>"

definition FrontierAStar_g ::
  "('k HospitalState \<Rightarrow> 'k HospitalState \<Rightarrow> 'a list) \<Rightarrow>
     ('k, 'g) FrontierAStar \<Rightarrow> 'k HospitalState \<Rightarrow> 'g option \<Rightarrow> int" where
  "FrontierAStar_g extract_plan self state gd = int (length (extract_plan state state))"

definition FrontierAStar_h ::
  "('k HospitalState \<Rightarrow> int) \<Rightarrow>
     ('k, 'g) FrontierAStar \<Rightarrow> 'k HospitalState \<Rightarrow> 'g option \<Rightarrow> int" where
  "FrontierAStar_h HospitalZeroHeuristic self state gd = HospitalZeroHeuristic state"

definition FrontierGreedy_g ::
  "('k, 'g) FrontierGreedy \<Rightarrow> 'k HospitalState \<Rightarrow> 'g option \<Rightarrow> int" where
  "FrontierGreedy_g self state gd = 0"

definition FrontierGreedy_h ::
  "('k HospitalState \<Rightarrow> int) \<Rightarrow>
     ('k, 'g) FrontierGreedy \<Rightarrow> 'k HospitalState \<Rightarrow> 'g option \<Rightarrow> int" where
  "FrontierGreedy_h HospitalAdvancedHeuristics self state gd = HospitalAdvancedHeuristics state"

subsection \<open>Sequences of calls\<close>

text \<open>
  A caller of the queue is a sequence of method calls. \<open>pq_step\<close> is the queue after
  one call, whether the call returned or raised, and \<open>pq_run\<close> the queue after a
  sequence of them.
\<close>

datatype 'k pq_op =
  Add "'k HospitalState" int | ChangePriority "'k HospitalState" int | Pop | Clear

fun pq_step :: "'k PriorityQueue \<Rightarrow> 'k pq_op \<Rightarrow> 'k PriorityQueue" where
  "pq_step q (Add s p) = PriorityQueue_add q s p"
| "pq_step q (ChangePriority s p) = snd (change_priority q s p)"
| "pq_step q Pop = snd (PriorityQueue_pop q)"
| "pq_step q Clear = clear q"

definition pq_run :: "'k PriorityQueue \<Rightarrow> 'k pq_op list \<Rightarrow> 'k PriorityQueue" where
  "pq_run q ops = foldl pq_step q ops"

text \<open>
  The spec's count of the payloads in the queue, "the number of distinct payloads ever
  added minus those popped", kept beside the queue: \<^verbatim>\<open>add\<close> puts the payload in,
  a \<^verbatim>\<open>pop\<close> that returns takes the returned payload out, \<^verbatim>\<open>clear\<close> empties it.
\<close>

fun added_not_popped_step :: "'k PriorityQueue \<Rightarrow> 'k set \<Rightarrow> 'k pq_op \<Rightarrow> 'k set" where
  "added_not_popped_step q T (Add s p) = insert (ident s) T"
| "added_not_popped_step q T (ChangePriority s p) = T"
| "added_not_popped_step q T Pop =
     (case fst (PriorityQueue_pop q) of Inl e \<Rightarrow> T | Inr s \<Rightarrow> T - {ident s})"
| "added_not_popped_step q T Clear = {}"

fun added_not_popped :: "'k PriorityQueue \<Rightarrow> 'k set \<Rightarrow> 'k pq_op list \<Rightarrow> 'k set" where
  "added_not_popped q T [] = T"
| "added_not_popped q T (x # ops) =
     added_not_popped (pq_step q x) (added_not_popped_step q T x) ops"

text \<open>An entry of the heap is live when its third position still holds its element.\<close>

definition live :: "(ref \<Rightarrow> 'k entry) \<Rightarrow> ref \<Rightarrow> bool" where
  "live st a = (element (st a) \<noteq> None)"

text \<open>
  The entry whose element \<^verbatim>\<open>pop\<close> returns, when it returns, and the priorities of the
  entries returned by \<open>n\<close> calls of \<^verbatim>\<open>pop\<close> in a row (a call that raises adds
  nothing to the list).
\<close>

definition popped_entry :: "'k PriorityQueue \<Rightarrow> ref option" where
  "popped_entry q =
     (case pop_loop (store q) (heap q) of
        (Inl e, h') \<Rightarrow> None
      | (Inr (a, state), h') \<Rightarrow>
          (case map_of (entry_finder q) (ident state) of None \<Rightarrow> None | Some _ \<Rightarrow> Some a))"

fun popped_priorities :: "nat \<Rightarrow> 'k PriorityQueue \<Rightarrow> int list" where
  "popped_priorities 0 q = []"
| "popped_priorities (Suc n) q =
     (case popped_entry q of
        None \<Rightarrow> popped_priorities n (snd (PriorityQueue_pop q))
      | Some a \<Rightarrow> priority (store q a) # popped_priorities n (snd (PriorityQueue_pop q)))"

text \<open>A caller of a frontier, and what each of its calls returns or raises.\<close>

datatype 'k result = RNone | RState "'k HospitalState" | RBool bool | RInt nat

datatype ('k, 'g) fr_op =
  Prepare 'g | FAdd "'k HospitalState" | FPop | FContains "'k HospitalState" | FIsEmpty | FSize

fun fr_step ::
  "('k, 'g, 'z) FrontierBestFirst_scheme \<Rightarrow> ('k, 'g) fr_op \<Rightarrow>
     (error + 'k result) \<times> ('k, 'g, 'z) FrontierBestFirst_scheme" where
  "fr_step fr (Prepare gd) = (Inr RNone, prepare fr gd)"
| "fr_step fr (FAdd s) =
     (case FrontierBestFirst_add fr s of
        (Inl e, fr') \<Rightarrow> (Inl e, fr') | (Inr u, fr') \<Rightarrow> (Inr RNone, fr'))"
| "fr_step fr FPop =
     (case FrontierBestFirst_pop fr of
        (Inl e, fr') \<Rightarrow> (Inl e, fr') | (Inr s, fr') \<Rightarrow> (Inr (RState s), fr'))"
| "fr_step fr (FContains s) = (Inr (RBool (FrontierBestFirst_contains fr s)), fr)"
| "fr_step fr FIsEmpty = (Inr (RBool (is_empty fr)), fr)"
| "fr_step fr FSize = (Inr (RInt (FrontierBestFirst_size fr)), fr)"

fun fr_run ::
  "('k, 'g, 'z) FrontierBestFirst_scheme \<Rightarrow> ('k, 'g) fr_op list \<Rightarrow> (error + 'k result) list" where
  "fr_run fr [] = []"
| "fr_run fr (x # ops) = fst (fr_step fr x) # fr_run (snd (fr_step fr x)) ops"

text \<open>
  The entries and the payloads returned by \<open>n\<close> calls of \<^verbatim>\<open>pop\<close> in a row.
\<close>

fun popped_entries :: "nat \<Rightarrow> 'k PriorityQueue \<Rightarrow> ref list" where
  "popped_entries 0 q = []"
| "popped_entries (Suc n) q =
     (case popped_entry q of
        None \<Rightarrow> popped_entries n (snd (PriorityQueue_pop q))
      | Some a \<Rightarrow> a # popped_entries n (snd (PriorityQueue_pop q)))"

fun popped_payloads :: "nat \<Rightarrow> 'k PriorityQueue \<Rightarrow> 'k HospitalState list" where
  "popped_payloads 0 q = []"
| "popped_payloads (Suc n) q =
     (case PriorityQueue_pop q of
        (Inl e, q') \<Rightarrow> popped_payloads n q'
      | (Inr s, q') \<Rightarrow> s # popped_payloads n q')"

text \<open>
  How many calls of a sequence are a \<^verbatim>\<open>pop\<close> that returns a payload equal to
  \<open>k\<close>.
\<close>

fun returns_of :: "'k \<Rightarrow> 'k PriorityQueue \<Rightarrow> 'k pq_op list \<Rightarrow> nat" where
  "returns_of k q [] = 0"
| "returns_of k q (x # ops) =
     (case x of
        Pop \<Rightarrow> (case fst (PriorityQueue_pop q) of
                  Inl e \<Rightarrow> 0
                | Inr s \<Rightarrow> if ident s = k then 1 else 0)
      | _ \<Rightarrow> 0)
     + returns_of k (pq_step q x) ops"

text \<open>
  The calls of a sequence that are a \<^verbatim>\<open>pop\<close> that returns: the entry it took
  from the heap and the payload it returned.
\<close>

fun returned :: "'k PriorityQueue \<Rightarrow> 'k pq_op list \<Rightarrow> (ref \<times> 'k HospitalState) list" where
  "returned q [] = []"
| "returned q (x # ops) =
     (case x of
        Pop \<Rightarrow> (case (popped_entry q, fst (PriorityQueue_pop q)) of
                  (Some a, Inr s) \<Rightarrow> [(a, s)]
                | _ \<Rightarrow> [])
      | _ \<Rightarrow> [])
     @ returned (pq_step q x) ops"

text \<open>
  Two live entries of the heap tie when they have the same priority; \<open>later_tie q a b\<close>
  says that \<open>a\<close> and \<open>b\<close> tie and that \<open>b\<close> has the lower order key, that is,
  the higher count: \<open>b\<close> was inserted after \<open>a\<close>.
\<close>

definition later_tie :: "'k PriorityQueue \<Rightarrow> ref \<Rightarrow> ref \<Rightarrow> bool" where
  "later_tie q a b \<longleftrightarrow>
     a \<in> set (heap q) \<and> b \<in> set (heap q) \<and> live (store q) a \<and> live (store q) b
     \<and> priority (store q a) = priority (store q b)
     \<and> order_key (store q b) < order_key (store q a)"

text \<open>
  The precondition of \<^verbatim>\<open>PriorityQueue.add\<close>, "payload not already tracked by the
  index", holds at every \<^verbatim>\<open>add\<close> of a sequence of calls.
\<close>

fun adds_untracked :: "'k PriorityQueue \<Rightarrow> 'k pq_op list \<Rightarrow> bool" where
  "adds_untracked q [] = True"
| "adds_untracked q (x # ops) =
     ((case x of Add s p \<Rightarrow> get_priority q s = None | _ \<Rightarrow> True)
      \<and> adds_untracked (pq_step q x) ops)"

subsection \<open>Invariants\<close>

text \<open>What holds of the queue after every sequence of calls.\<close>

definition queue_inv :: "'k PriorityQueue \<Rightarrow> bool" where
  "queue_inv q \<longleftrightarrow>
     distinct (heap q)
     \<and> (\<forall>a\<in>set (heap q). a < fresh q)
     \<and> (\<forall>a\<in>set (heap q). - int (counter q) < order_key (store q a))
     \<and> inj_on (\<lambda>a. order_key (store q a)) (set (heap q))
     \<and> distinct (map fst (entry_finder q))
     \<and> (\<forall>k a. map_of (entry_finder q) k = Some a \<longrightarrow>
           a \<in> set (heap q) \<and> (\<exists>s. element (store q a) = Some s \<and> ident s = k))"

text \<open>Every live entry of the heap is the one the index holds for its payload.\<close>

definition index_complete :: "'k PriorityQueue \<Rightarrow> bool" where
  "index_complete q \<longleftrightarrow>
     (\<forall>a\<in>set (heap q). \<forall>s. element (store q a) = Some s \<longrightarrow>
        map_of (entry_finder q) (ident s) = Some a)"

text \<open>
  A queue in which the entries created before reference \<open>f0\<close> have a priority below
  \<open>P\<close> and the entries created since have priority \<open>P\<close> or more, and the
  entries of the first kind that are still in the heap.
\<close>

definition staged :: "ref \<Rightarrow> int \<Rightarrow> 'k PriorityQueue \<Rightarrow> bool" where
  "staged f0 P q \<longleftrightarrow>
     queue_inv q \<and> f0 \<le> fresh q
     \<and> (\<forall>b\<in>set (heap q). if b < f0 then priority (store q b) < P
                             else P \<le> priority (store q b))"

definition old_entries :: "ref \<Rightarrow> 'k PriorityQueue \<Rightarrow> ref list" where
  "old_entries f0 q = filter (\<lambda>b. b < f0) (heap q)"

section \<open>Properties\<close>

lemmas frontier_defs =
  FrontierBestFirst_add_def FrontierBestFirst_contains_def FrontierBestFirst_pop_def
  FrontierBestFirst_size_def is_empty_def prepare_def
  FrontierBestFirst_f_def FrontierBestFirst_g_def FrontierBestFirst_h_def

lemmas queue_defs =
  PriorityQueue_add_def change_priority_def PriorityQueue_pop_def clear_def
  PriorityQueue_size_def get_priority_def heappush_def Let_def

lemmas init_defs = FrontierBestFirst_init_def PriorityQueue_init_def

lemmas eval_defs =
  pq_run_def queue_defs PriorityQueue_init_def pop_loop.simps heappop_def entry_key_def
  popped_entry_def live_def

subsection \<open>Adding a state that is already in the frontier\<close>

lemma add_present_raises:
  "FrontierBestFirst_contains fr s \<Longrightarrow> FrontierBestFirst_add fr s = (Inl TypeError, fr)"
  by (simp add: FrontierBestFirst_add_def)

text \<open>
  Claim C1 (decrease-only update). The claim asks that adding a state that is already in
  the frontier with a lower priority stores the lower priority, and that adding it with a
  priority that is not lower does nothing. The source does neither: the call raises
  \<^verbatim>\<open>TypeError\<close>. Here a state is in the frontier at priority 5 and is added again
  with path cost 2: the call raises, the frontier is the one before the call, and the
  stored priority is still 5. Added again with path cost 9, the call raises as well.
\<close>

theorem add_present_lower_raises:
  "FrontierBestFirst_add
     (snd (FrontierBestFirst_add
            (prepare (FrontierBestFirst_init :: (string, unit) FrontierBestFirst) ())
            \<lparr>ident = ''A'', path_cost = 5\<rparr>))
     \<lparr>ident = ''A'', path_cost = 2\<rparr>
   = (Inl TypeError,
      snd (FrontierBestFirst_add (prepare FrontierBestFirst_init ())
            \<lparr>ident = ''A'', path_cost = 5\<rparr>))
   \<and> get_priority
       (priority_queue
         (snd (FrontierBestFirst_add
                (snd (FrontierBestFirst_add
                       (prepare (FrontierBestFirst_init :: (string, unit) FrontierBestFirst) ())
                       \<lparr>ident = ''A'', path_cost = 5\<rparr>))
                \<lparr>ident = ''A'', path_cost = 2\<rparr>)))
       \<lparr>ident = ''A'', path_cost = 2\<rparr> = Some 5
   \<and> FrontierBestFirst_add
     (snd (FrontierBestFirst_add
            (prepare (FrontierBestFirst_init :: (string, unit) FrontierBestFirst) ())
            \<lparr>ident = ''A'', path_cost = 5\<rparr>))
     \<lparr>ident = ''A'', path_cost = 9\<rparr>
   = (Inl TypeError,
      snd (FrontierBestFirst_add (prepare FrontierBestFirst_init ())
            \<lparr>ident = ''A'', path_cost = 5\<rparr>))"
  by (simp add: frontier_defs queue_defs init_defs)

subsection \<open>The cost model of the base class\<close>

lemma get_priority_add: "get_priority (PriorityQueue_add q s p) s = Some p"
  by (simp add: get_priority_def PriorityQueue_add_def Let_def update_conv')

text \<open>
  Claim C2, as stated, fails: \<^verbatim>\<open>FrontierBestFirst.g\<close> returns the path cost of the
  state, not 0. A state of path cost 7 has \<open>g = 7\<close> and enters an empty frontier at
  priority 7.
\<close>

theorem best_first_g_not_zero:
  "FrontierBestFirst_g \<lparr>ident = ''A'', path_cost = 7\<rparr> (None :: unit option) = 7
   \<and> get_priority
        (priority_queue (snd (FrontierBestFirst_add
           (prepare (FrontierBestFirst_init :: (string, unit) FrontierBestFirst) ())
           \<lparr>ident = ''A'', path_cost = 7\<rparr>)))
        \<lparr>ident = ''A'', path_cost = 7\<rparr> = Some 7"
  by (simp add: frontier_defs queue_defs init_defs)

text \<open>
  Claim C2, amended: for the generic best-first strategy \<open>h\<close> is 0 and \<open>g\<close> is the
  path cost of the state, so \<open>f\<close> is the path cost, and a state that is not in the
  frontier is added at that priority.
\<close>

theorem best_first_priority_is_path_cost:
  "FrontierBestFirst_h s gd = 0 \<and> FrontierBestFirst_g s gd = path_cost s
   \<and> FrontierBestFirst_f s gd = path_cost s
   \<and> (\<not> FrontierBestFirst_contains fr s \<longrightarrow>
        fst (FrontierBestFirst_add fr s) = Inr () \<and>
        get_priority (priority_queue (snd (FrontierBestFirst_add fr s))) s
          = Some (path_cost s))"
  by (simp add: FrontierBestFirst_h_def FrontierBestFirst_g_def FrontierBestFirst_f_def
      FrontierBestFirst_add_def get_priority_add)

text \<open>The amended claim at a state of path cost 7 and an empty frontier.\<close>

theorem best_first_priority_is_path_cost_witness:
  "\<not> FrontierBestFirst_contains
       (prepare (FrontierBestFirst_init :: (string, unit) FrontierBestFirst) ())
       \<lparr>ident = ''A'', path_cost = 7\<rparr>
   \<and> get_priority
        (priority_queue (snd (FrontierBestFirst_add
           (prepare (FrontierBestFirst_init :: (string, unit) FrontierBestFirst) ())
           \<lparr>ident = ''A'', path_cost = 7\<rparr>)))
        \<lparr>ident = ''A'', path_cost = 7\<rparr> = Some 7"
proof -
  let ?fr = "prepare (FrontierBestFirst_init :: (string, unit) FrontierBestFirst) ()"
  let ?s = "\<lparr>ident = ''A'', path_cost = 7\<rparr>"
  have absent: "\<not> FrontierBestFirst_contains ?fr ?s"
    by (simp add: frontier_defs queue_defs init_defs)
  have cost: "path_cost ?s = 7" by simp
  from best_first_priority_is_path_cost [of ?s None ?fr] absent
  have "get_priority (priority_queue (snd (FrontierBestFirst_add ?fr ?s))) ?s
          = Some (path_cost ?s)"
    by blast
  with absent cost show ?thesis by (simp only: simp_thms)
qed

subsection \<open>The heuristic of the subclasses\<close>

text \<open>
  Claim C3, as stated, fails: \<^verbatim>\<open>FrontierAStar.h\<close> does not call the heuristic given
  to the constructor. With a constructor argument that returns 1 everywhere and a module
  function \<^verbatim>\<open>HospitalZeroHeuristic\<close> that returns 0, \<open>h\<close> is not the value of the
  constructor argument.
\<close>

theorem astar_h_ignores_constructor_heuristic:
  "FrontierAStar_h (\<lambda>_. 0) (FrontierAStar_init (\<lambda>_. 1) :: (string, unit) FrontierAStar)
      \<lparr>ident = ''A'', path_cost = 0\<rparr> None
   \<noteq> FrontierAStar.heuristic (FrontierAStar_init (\<lambda>_. 1) :: (string, unit) FrontierAStar)
      \<lparr>ident = ''A'', path_cost = 0\<rparr>"
  by (simp add: FrontierAStar_h_def FrontierAStar_init_def)

text \<open>
  Claim C3, amended: \<^verbatim>\<open>FrontierAStar.h\<close> returns
  \<^verbatim>\<open>h_heuristics.HospitalZeroHeuristic(state)\<close> and \<^verbatim>\<open>FrontierGreedy.h\<close> returns
  \<^verbatim>\<open>h_heuristics.HospitalAdvancedHeuristics(state)\<close>, whatever heuristic the
  constructor stored.
\<close>

theorem subclass_h_is_module_heuristic:
  "FrontierAStar_h HospitalZeroHeuristic (self\<lparr>FrontierAStar.heuristic := heur\<rparr>) s gd
     = HospitalZeroHeuristic s
   \<and> FrontierGreedy_h HospitalAdvancedHeuristics
        (self'\<lparr>FrontierGreedy.heuristic := heur'\<rparr>) s gd
     = HospitalAdvancedHeuristics s"
  by (simp add: FrontierAStar_h_def FrontierGreedy_h_def)

subsection \<open>The loop of pop\<close>

lemma heappop_nonempty:
  "h \<noteq> [] \<Longrightarrow>
   heappop st h = Inr (arg_min_list (entry_key st) h, remove1 (arg_min_list (entry_key st) h) h)"
  by (simp add: heappop_def Let_def)

lemma key_le_priority:
  "entry_key st a \<le> entry_key st b \<Longrightarrow> priority (st a) \<le> priority (st b)"
  by (auto simp: entry_key_def less_eq_prod_def)

lemma arg_min_list_least:
  assumes "b \<in> set h"
  shows "f (arg_min_list f h) \<le> f b"
proof -
  from assms have ne: "h \<noteq> []" by auto
  have "f (arg_min_list f h) = Min (f ` set h)" using ne by (rule f_arg_min_list_f)
  also have "\<dots> \<le> f b" using assms by simp
  finally show ?thesis .
qed

lemma in_remove1D: "a \<in> set (remove1 m h) \<Longrightarrow> a \<in> set h"
  by (metis notin_set_remove1)

lemma in_remove1_cases: "b \<in> set h \<Longrightarrow> b = m \<or> b \<in> set (remove1 m h)"
  by (cases "b = m") simp_all

lemma pop_loop_Nil: "pop_loop st [] = (Inl IndexError, [])"
  by (subst pop_loop.simps) (simp add: heappop_def)

lemma pop_loop_dead:
  "h \<noteq> [] \<Longrightarrow> element (st (arg_min_list (entry_key st) h)) = None \<Longrightarrow>
   pop_loop st h = pop_loop st (remove1 (arg_min_list (entry_key st) h) h)"
  by (subst pop_loop.simps) (simp add: heappop_nonempty)

lemma pop_loop_live:
  "h \<noteq> [] \<Longrightarrow> element (st (arg_min_list (entry_key st) h)) = Some s \<Longrightarrow>
   pop_loop st h = (Inr (arg_min_list (entry_key st) h, s), remove1 (arg_min_list (entry_key st) h) h)"
  by (subst pop_loop.simps) (simp add: heappop_nonempty)

text \<open>The three ways one round of the loop can go, as an induction rule.\<close>

lemma pop_loop_rounds [case_names Nil dead live]:
  assumes nil: "P []"
    and dead: "\<And>h. h \<noteq> [] \<Longrightarrow> element (st (arg_min_list (entry_key st) h)) = None \<Longrightarrow>
                 P (remove1 (arg_min_list (entry_key st) h) h) \<Longrightarrow> P h"
    and live: "\<And>h s. h \<noteq> [] \<Longrightarrow> element (st (arg_min_list (entry_key st) h)) = Some s \<Longrightarrow> P h"
  shows "P h"
proof (induction h rule: length_induct)
  case (1 h)
  show ?case
  proof (cases "h = []")
    case True
    with nil show ?thesis by simp
  next
    case False
    let ?m = "arg_min_list (entry_key st) h"
    show ?thesis
    proof (cases "element (st ?m)")
      case None
      have "?m \<in> set h" using False by (rule arg_min_list_in)
      then have "length (remove1 ?m h) < length h"
        using False by (simp add: length_remove1)
      with 1 have "P (remove1 ?m h)" by blast
      with False None show ?thesis by (rule dead)
    next
      case (Some s)
      with False show ?thesis by (rule live)
    qed
  qed
qed

lemma pop_loop_Inl:
  "pop_loop st h = (Inl e, h') \<Longrightarrow> e = IndexError \<and> h' = [] \<and> (\<forall>a\<in>set h. \<not> live st a)"
proof (induction h rule: pop_loop_rounds [where st = st])
  case Nil
  then show ?case by (simp add: pop_loop_Nil)
next
  case (dead h)
  let ?m = "arg_min_list (entry_key st) h"
  from dead have "e = IndexError \<and> h' = [] \<and> (\<forall>a\<in>set (remove1 ?m h). \<not> live st a)"
    by (simp add: pop_loop_dead)
  moreover have "\<not> live st ?m" using dead by (simp add: live_def)
  moreover have "\<And>b. b \<in> set h \<Longrightarrow> b = ?m \<or> b \<in> set (remove1 ?m h)"
    by (rule in_remove1_cases)
  ultimately show ?case by blast
next
  case (live h s)
  then show ?case by (simp add: pop_loop_live)
qed

lemma pop_loop_Inr_in:
  "pop_loop st h = (Inr (a, s), h') \<Longrightarrow> a \<in> set h \<and> element (st a) = Some s"
proof (induction h rule: pop_loop_rounds [where st = st])
  case Nil
  then show ?case by (simp add: pop_loop_Nil)
next
  case (dead h)
  then have "a \<in> set (remove1 (arg_min_list (entry_key st) h) h) \<and> element (st a) = Some s"
    by (simp add: pop_loop_dead)
  then show ?case by (auto dest: in_remove1D)
next
  case (live h s')
  then show ?case by (auto simp: pop_loop_live arg_min_list_in)
qed

lemma pop_loop_subset:
  "pop_loop st h = (r, h') \<Longrightarrow> set h' \<subseteq> set h"
proof (induction h rule: pop_loop_rounds [where st = st])
  case Nil
  then show ?case by (simp add: pop_loop_Nil)
next
  case (dead h)
  then have "set h' \<subseteq> set (remove1 (arg_min_list (entry_key st) h) h)"
    by (simp add: pop_loop_dead)
  then show ?case using set_remove1_subset by fast
next
  case (live h s')
  then show ?case by (auto simp: pop_loop_live dest: in_remove1D)
qed

lemma pop_loop_distinct:
  "pop_loop st h = (r, h') \<Longrightarrow> distinct h \<Longrightarrow> distinct h'"
proof (induction h rule: pop_loop_rounds [where st = st])
  case Nil
  then show ?case by (simp add: pop_loop_Nil)
next
  case (dead h)
  then show ?case by (simp add: pop_loop_dead)
next
  case (live h s')
  then show ?case by (auto simp: pop_loop_live)
qed

lemma pop_loop_taken:
  "pop_loop st h = (Inr (a, s), h') \<Longrightarrow> distinct h \<Longrightarrow> a \<notin> set h'"
proof (induction h rule: pop_loop_rounds [where st = st])
  case Nil
  then show ?case by (simp add: pop_loop_Nil)
next
  case (dead h)
  then show ?case by (simp add: pop_loop_dead)
next
  case (live h s')
  then show ?case by (auto simp: pop_loop_live)
qed

lemma pop_loop_rest_ge:
  "pop_loop st h = (Inr (a, s), h') \<Longrightarrow> b \<in> set h' \<Longrightarrow> entry_key st a \<le> entry_key st b"
proof (induction h rule: pop_loop_rounds [where st = st])
  case Nil
  then show ?case by (simp add: pop_loop_Nil)
next
  case (dead h)
  then show ?case by (simp add: pop_loop_dead)
next
  case (live h s')
  then have a: "a = arg_min_list (entry_key st) h"
    and h': "h' = remove1 (arg_min_list (entry_key st) h) h"
    by (auto simp: pop_loop_live)
  from live.prems(2) h' have "b \<in> set h" by (auto dest: in_remove1D)
  then show ?case unfolding a by (rule arg_min_list_least)
qed

lemma pop_loop_removed:
  "pop_loop st h = (Inr (a, s), h') \<Longrightarrow> b \<in> set h \<Longrightarrow>
     b \<in> set h' \<or> b = a \<or> (\<not> live st b \<and> entry_key st b \<le> entry_key st a)"
proof (induction h rule: pop_loop_rounds [where st = st])
  case Nil
  then show ?case by simp
next
  case (dead h)
  let ?m = "arg_min_list (entry_key st) h"
  from dead have rec: "pop_loop st (remove1 ?m h) = (Inr (a, s), h')"
    by (simp add: pop_loop_dead)
  show ?case
  proof (cases "b = ?m")
    case True
    have "a \<in> set (remove1 ?m h)" using rec pop_loop_Inr_in by fast
    then have "a \<in> set h" by (rule in_remove1D)
    then have "entry_key st ?m \<le> entry_key st a" by (rule arg_min_list_least)
    moreover have "\<not> live st ?m" using dead by (simp add: live_def)
    ultimately show ?thesis using True by simp
  next
    case False
    with dead.prems(2) have "b \<in> set (remove1 ?m h)" by simp
    with dead.IH rec show ?thesis by simp
  qed
next
  case (live h s')
  then show ?case by (auto simp: pop_loop_live)
qed

lemma pop_loop_live_ge:
  assumes "pop_loop st h = (Inr (a, s), h')" and "b \<in> set h" and "live st b"
  shows "entry_key st a \<le> entry_key st b"
proof -
  from pop_loop_removed [OF assms(1,2)] assms(3) have "b \<in> set h' \<or> b = a" by blast
  then show ?thesis using pop_loop_rest_ge [OF assms(1)] by auto
qed

lemma pop_loop_no_live:
  "\<forall>a\<in>set h. \<not> live st a \<Longrightarrow> pop_loop st h = (Inl IndexError, [])"
proof (induction h rule: pop_loop_rounds [where st = st])
  case Nil
  show ?case by (rule pop_loop_Nil)
next
  case (dead h)
  from dead.prems have "\<forall>a\<in>set (remove1 (arg_min_list (entry_key st) h) h). \<not> live st a"
    by (auto dest: in_remove1D)
  with dead show ?case by (simp add: pop_loop_dead)
next
  case (live h s)
  from live(1) have "arg_min_list (entry_key st) h \<in> set h" by (rule arg_min_list_in)
  with live.prems have "\<not> live st (arg_min_list (entry_key st) h)" by blast
  with live(2) show ?case by (simp add: live_def)
qed

subsection \<open>Contract violations\<close>

lemma pop_empty_index_raises:
  "entry_finder q = [] \<Longrightarrow> \<exists>e. fst (PriorityQueue_pop q) = Inl e"
  by (auto simp: PriorityQueue_pop_def split: prod.splits sum.splits)

text \<open>
  Claim C6 (contract violations fail fast). \<^verbatim>\<open>pop\<close> on a queue whose heap holds no
  live entry raises \<^verbatim>\<open>IndexError\<close>; \<^verbatim>\<open>pop\<close> on a queue of size 0 raises;
  \<^verbatim>\<open>change_priority\<close> on a payload that the index does not track raises
  \<^verbatim>\<open>KeyError\<close> and leaves the queue as it was.
\<close>

theorem contract_violations_raise:
  "((\<forall>a\<in>set (heap q). \<not> live (store q) a) \<longrightarrow> fst (PriorityQueue_pop q) = Inl IndexError)
   \<and> (PriorityQueue_size q = 0 \<longrightarrow> (\<exists>e. fst (PriorityQueue_pop q) = Inl e))
   \<and> (get_priority q s = None \<longrightarrow> change_priority q s p = (Inl KeyError, q))"
proof (intro conjI impI)
  assume "\<forall>a\<in>set (heap q). \<not> live (store q) a"
  then have "pop_loop (store q) (heap q) = (Inl IndexError, [])" by (rule pop_loop_no_live)
  then show "fst (PriorityQueue_pop q) = Inl IndexError" by (simp add: PriorityQueue_pop_def)
next
  assume "PriorityQueue_size q = 0"
  then have "entry_finder q = []" by (simp add: PriorityQueue_size_def)
  then show "\<exists>e. fst (PriorityQueue_pop q) = Inl e" by (rule pop_empty_index_raises)
next
  assume "get_priority q s = None"
  then have "map_of (entry_finder q) (ident s) = None"
    by (simp add: get_priority_def split: option.splits)
  then show "change_priority q s p = (Inl KeyError, q)" by (simp add: change_priority_def)
qed

text \<open>
  A queue that satisfies all three hypotheses: after \<^verbatim>\<open>add\<close>,
  \<^verbatim>\<open>change_priority\<close> and \<^verbatim>\<open>pop\<close> of one payload the heap holds one
  invalidated entry and the index is empty.
\<close>

theorem contract_violations_raise_witness:
  "heap (pq_run PriorityQueue_init
        [Add \<lparr>ident = ''A'', path_cost = 5\<rparr> 5, ChangePriority \<lparr>ident = ''A'', path_cost = 3\<rparr> 3,
         Pop]) = [0]
   \<and> \<not> live (store (pq_run PriorityQueue_init
        [Add \<lparr>ident = ''A'', path_cost = 5\<rparr> 5, ChangePriority \<lparr>ident = ''A'', path_cost = 3\<rparr> 3,
         Pop])) 0
   \<and> PriorityQueue_size (pq_run PriorityQueue_init
        [Add \<lparr>ident = ''A'', path_cost = 5\<rparr> 5, ChangePriority \<lparr>ident = ''A'', path_cost = 3\<rparr> 3,
         Pop]) = 0
   \<and> get_priority (pq_run PriorityQueue_init
        [Add \<lparr>ident = ''A'', path_cost = 5\<rparr> 5, ChangePriority \<lparr>ident = ''A'', path_cost = 3\<rparr> 3,
         Pop])
        \<lparr>ident = ''A'', path_cost = 5\<rparr> = None
   \<and> fst (PriorityQueue_pop (pq_run PriorityQueue_init
        [Add \<lparr>ident = ''A'', path_cost = 5\<rparr> 5, ChangePriority \<lparr>ident = ''A'', path_cost = 3\<rparr> 3,
         Pop]))
       = Inl IndexError
   \<and> change_priority (pq_run PriorityQueue_init
        [Add \<lparr>ident = ''A'', path_cost = 5\<rparr> 5, ChangePriority \<lparr>ident = ''A'', path_cost = 3\<rparr> 3,
         Pop])
        \<lparr>ident = ''A'', path_cost = 5\<rparr> 9
       = (Inl KeyError, pq_run PriorityQueue_init
        [Add \<lparr>ident = ''A'', path_cost = 5\<rparr> 5, ChangePriority \<lparr>ident = ''A'', path_cost = 3\<rparr> 3,
         Pop])"
proof -
  let ?q = "pq_run PriorityQueue_init
        [Add \<lparr>ident = ''A'', path_cost = 5\<rparr> 5, ChangePriority \<lparr>ident = ''A'', path_cost = 3\<rparr> 3,
         Pop]"
  let ?s = "\<lparr>ident = ''A'', path_cost = 5\<rparr>"
  have hp: "heap ?q = [0]" and dead: "\<not> live (store ?q) 0" and ix: "entry_finder ?q = []"
    by (simp_all add: eval_defs)
  have h1: "\<forall>a\<in>set (heap ?q). \<not> live (store ?q) a" using dead by (simp add: hp)
  have h2: "PriorityQueue_size ?q = 0" by (simp add: ix PriorityQueue_size_def)
  have h3: "get_priority ?q ?s = None" by (simp add: ix get_priority_def)
  from contract_violations_raise [of ?q ?s 9] h1 h3
  have "fst (PriorityQueue_pop ?q) = Inl IndexError
        \<and> change_priority ?q ?s 9 = (Inl KeyError, ?q)"
    by blast
  with hp dead h2 h3 show ?thesis by (simp only: simp_thms)
qed

subsection \<open>The stored heuristic is never used\<close>

lemma fr_step_astar_heuristic:
  "fr_step (fr\<lparr>FrontierAStar.heuristic := heur\<rparr>) x =
     (fst (fr_step fr x), (snd (fr_step fr x))\<lparr>FrontierAStar.heuristic := heur\<rparr>)"
  by (cases x) (auto simp: frontier_defs split: prod.splits sum.splits)

lemma fr_run_astar_heuristic:
  "fr_run (fr\<lparr>FrontierAStar.heuristic := heur\<rparr>) ops = fr_run fr ops"
proof (induction ops arbitrary: fr)
  case Nil
  show ?case by simp
next
  case (Cons x ops)
  show ?case by (simp add: fr_step_astar_heuristic Cons.IH)
qed

lemma fr_step_greedy_heuristic:
  "fr_step (fr\<lparr>FrontierGreedy.heuristic := heur\<rparr>) x =
     (fst (fr_step fr x), (snd (fr_step fr x))\<lparr>FrontierGreedy.heuristic := heur\<rparr>)"
  by (cases x) (auto simp: frontier_defs split: prod.splits sum.splits)

lemma fr_run_greedy_heuristic:
  "fr_run (fr\<lparr>FrontierGreedy.heuristic := heur\<rparr>) ops = fr_run fr ops"
proof (induction ops arbitrary: fr)
  case Nil
  show ?case by simp
next
  case (Cons x ops)
  show ?case by (simp add: fr_step_greedy_heuristic Cons.IH)
qed

text \<open>
  Claim C9. Two \<^verbatim>\<open>FrontierAStar\<close> objects, or two \<^verbatim>\<open>FrontierGreedy\<close> objects,
  constructed with different heuristics return and raise the same on every sequence of
  \<^verbatim>\<open>prepare\<close>, \<^verbatim>\<open>add\<close>, \<^verbatim>\<open>pop\<close>, \<^verbatim>\<open>contains\<close>, \<^verbatim>\<open>is_empty\<close> and
  \<^verbatim>\<open>size\<close> calls, and their \<^verbatim>\<open>g\<close> and \<^verbatim>\<open>h\<close> do not depend on the stored
  heuristic either.
\<close>

theorem heuristic_never_used:
  "fr_run (FrontierAStar_init heur1) ops = fr_run (FrontierAStar_init heur2) ops
   \<and> fr_run (FrontierGreedy_init heur1) ops = fr_run (FrontierGreedy_init heur2) ops
   \<and> FrontierAStar_g extract_plan (self\<lparr>FrontierAStar.heuristic := heur1\<rparr>) s gd
       = FrontierAStar_g extract_plan self s gd
   \<and> FrontierAStar_h zero_heuristic (self\<lparr>FrontierAStar.heuristic := heur1\<rparr>) s gd
       = FrontierAStar_h zero_heuristic self s gd
   \<and> FrontierGreedy_g (self'\<lparr>FrontierGreedy.heuristic := heur1\<rparr>) s gd
       = FrontierGreedy_g self' s gd
   \<and> FrontierGreedy_h advanced_heuristics (self'\<lparr>FrontierGreedy.heuristic := heur1\<rparr>) s gd
       = FrontierGreedy_h advanced_heuristics self' s gd"
proof (intro conjI)
  have "FrontierAStar_init heur2 =
          (FrontierAStar_init heur1 :: ('a, 'b) FrontierAStar)\<lparr>FrontierAStar.heuristic := heur2\<rparr>"
    by (simp add: FrontierAStar_init_def)
  then show "fr_run (FrontierAStar_init heur1) ops =
               fr_run (FrontierAStar_init heur2 :: ('a, 'b) FrontierAStar) ops"
    by (simp only: fr_run_astar_heuristic)
  have "FrontierGreedy_init heur2 =
          (FrontierGreedy_init heur1 :: ('a, 'b) FrontierGreedy)\<lparr>FrontierGreedy.heuristic := heur2\<rparr>"
    by (simp add: FrontierGreedy_init_def)
  then show "fr_run (FrontierGreedy_init heur1) ops =
               fr_run (FrontierGreedy_init heur2 :: ('a, 'b) FrontierGreedy) ops"
    by (simp only: fr_run_greedy_heuristic)
qed (simp_all add: FrontierAStar_g_def FrontierAStar_h_def FrontierGreedy_g_def
       FrontierGreedy_h_def)

subsection \<open>The invariant holds after every sequence of calls\<close>

lemma queue_inv_init: "queue_inv PriorityQueue_init"
  by (simp add: queue_inv_def PriorityQueue_init_def)

lemma queue_inv_clear: "queue_inv q \<Longrightarrow> queue_inv (clear q)"
  by (simp add: queue_inv_def clear_def)

lemma queue_inv_add:
  assumes "queue_inv q"
  shows "queue_inv (PriorityQueue_add q s p)"
proof -
  let ?q' = "PriorityQueue_add q s p"
  have hp: "heap ?q' = heap q @ [fresh q]"
    and st: "store ?q' = (store q)(fresh q := \<lparr>priority = p, order_key = - int (counter q), element = Some s\<rparr>)"
    and fr: "fresh ?q' = Suc (fresh q)"
    and ct: "counter ?q' = Suc (counter q)"
    and ix: "entry_finder ?q' = AList.update (ident s) (fresh q) (entry_finder q)"
    by (simp_all add: PriorityQueue_add_def Let_def heappush_def)
  from assms have d: "distinct (heap q)"
    and b: "\<forall>a\<in>set (heap q). a < fresh q"
    and c: "\<forall>a\<in>set (heap q). - int (counter q) < order_key (store q a)"
    and i: "inj_on (\<lambda>a. order_key (store q a)) (set (heap q))"
    and e: "distinct (map fst (entry_finder q))"
    and f: "\<forall>k a. map_of (entry_finder q) k = Some a \<longrightarrow>
           a \<in> set (heap q) \<and> (\<exists>s. element (store q a) = Some s \<and> ident s = k)"
    by (simp_all add: queue_inv_def)
  have nin: "fresh q \<notin> set (heap q)" using b by auto
  have old: "\<And>a. a \<in> set (heap q) \<Longrightarrow> store ?q' a = store q a"
    using nin by (auto simp: st)
  have new: "store ?q' (fresh q) = \<lparr>priority = p, order_key = - int (counter q), element = Some s\<rparr>"
    by (simp add: st)
  have 1: "distinct (heap ?q')" using d nin by (simp add: hp)
  have 2: "\<forall>a\<in>set (heap ?q'). a < fresh ?q'" using b by (auto simp: hp fr)
  have 3: "\<forall>a\<in>set (heap ?q'). - int (counter ?q') < order_key (store ?q' a)"
  proof
    fix a assume "a \<in> set (heap ?q')"
    then consider "a \<in> set (heap q)" | "a = fresh q" by (auto simp: hp)
    then show "- int (counter ?q') < order_key (store ?q' a)"
    proof cases
      case 1
      with c have "- int (counter q) < order_key (store q a)" by blast
      with 1 show ?thesis by (simp add: old ct)
    next
      case 2
      then show ?thesis by (simp add: new ct)
    qed
  qed
  have 4: "inj_on (\<lambda>a. order_key (store ?q' a)) (set (heap ?q'))"
  proof (rule inj_onI)
    fix x y
    assume x: "x \<in> set (heap ?q')" and y: "y \<in> set (heap ?q')"
      and eq: "order_key (store ?q' x) = order_key (store ?q' y)"
    have key: "\<And>z. z \<in> set (heap q) \<Longrightarrow> order_key (store ?q' z) \<noteq> order_key (store ?q' (fresh q))"
    proof -
      fix z assume z: "z \<in> set (heap q)"
      with c have "- int (counter q) < order_key (store q z)" by blast
      with z show "order_key (store ?q' z) \<noteq> order_key (store ?q' (fresh q))"
        by (simp add: old new)
    qed
    from x y consider "x \<in> set (heap q)" "y \<in> set (heap q)" | "x = fresh q" "y = fresh q"
      | "x \<in> set (heap q)" "y = fresh q" | "x = fresh q" "y \<in> set (heap q)"
      by (auto simp: hp)
    then show "x = y"
    proof cases
      case 1
      with eq have "order_key (store q x) = order_key (store q y)" by (simp add: old)
      with i 1 show ?thesis by (auto dest: inj_onD)
    next
      case 2 then show ?thesis by simp
    next
      case 3 with key eq show ?thesis by metis
    next
      case 4 with key eq show ?thesis by metis
    qed
  qed
  have 5: "distinct (map fst (entry_finder ?q'))" using e by (simp add: ix distinct_update)
  have 6: "\<forall>k a. map_of (entry_finder ?q') k = Some a \<longrightarrow>
           a \<in> set (heap ?q') \<and> (\<exists>s. element (store ?q' a) = Some s \<and> ident s = k)"
  proof (intro allI impI)
    fix k a assume m: "map_of (entry_finder ?q') k = Some a"
    show "a \<in> set (heap ?q') \<and> (\<exists>s. element (store ?q' a) = Some s \<and> ident s = k)"
    proof (cases "k = ident s")
      case True
      with m have "a = fresh q" by (simp add: ix update_conv')
      with True show ?thesis by (simp add: hp new)
    next
      case False
      with m have "map_of (entry_finder q) k = Some a" by (simp add: ix update_conv')
      with f have "a \<in> set (heap q)" and "\<exists>s. element (store q a) = Some s \<and> ident s = k"
        by blast+
      then show ?thesis by (simp add: hp old)
    qed
  qed
  from 1 2 3 4 5 6 show ?thesis unfolding queue_inv_def by blast
qed

lemma queue_inv_tombstone:
  assumes inv: "queue_inv q" and m: "map_of (entry_finder q) k = Some a"
  shows "queue_inv (q\<lparr>entry_finder := AList.delete k (entry_finder q),
                      store := (store q)(a := (store q a)\<lparr>element := None\<rparr>)\<rparr>)"
    (is "queue_inv ?q1")
proof -
  from inv have f: "\<And>k a. map_of (entry_finder q) k = Some a \<Longrightarrow>
           a \<in> set (heap q) \<and> (\<exists>s. element (store q a) = Some s \<and> ident s = k)"
    by (simp add: queue_inv_def)
  have ok: "\<And>b. order_key (store ?q1 b) = order_key (store q b)" by simp
  have 6: "\<forall>k' a'. map_of (entry_finder ?q1) k' = Some a' \<longrightarrow>
           a' \<in> set (heap ?q1) \<and> (\<exists>s. element (store ?q1 a') = Some s \<and> ident s = k')"
  proof (intro allI impI)
    fix k' a' assume m': "map_of (entry_finder ?q1) k' = Some a'"
    then have ne: "k' \<noteq> k" by (auto simp: delete_conv')
    with m' have old: "map_of (entry_finder q) k' = Some a'" by (simp add: delete_conv')
    from f [OF old] obtain s' where a': "a' \<in> set (heap q)" "element (store q a') = Some s'" "ident s' = k'"
      by blast
    from f [OF m] obtain s0 where "element (store q a) = Some s0" "ident s0 = k" by blast
    with a' ne have "a' \<noteq> a" by auto
    with a' show "a' \<in> set (heap ?q1) \<and> (\<exists>s. element (store ?q1 a') = Some s \<and> ident s = k')"
      by simp
  qed
  from inv have "distinct (heap ?q1)" "\<forall>a\<in>set (heap ?q1). a < fresh ?q1"
    "\<forall>a\<in>set (heap ?q1). - int (counter ?q1) < order_key (store ?q1 a)"
    "distinct (map fst (entry_finder ?q1))"
    by (simp_all add: queue_inv_def distinct_delete)
  moreover from inv have "inj_on (\<lambda>a. order_key (store ?q1 a)) (set (heap ?q1))"
    unfolding ok by (simp add: queue_inv_def)
  ultimately show ?thesis using 6 unfolding queue_inv_def by blast
qed

lemma queue_inv_change_priority:
  assumes "queue_inv q"
  shows "queue_inv (snd (change_priority q s p))"
proof (cases "map_of (entry_finder q) (ident s)")
  case None
  with assms show ?thesis by (simp add: change_priority_def)
next
  case (Some a)
  from queue_inv_tombstone [OF assms Some]
  have "queue_inv (PriorityQueue_add
          (q\<lparr>entry_finder := AList.delete (ident s) (entry_finder q),
             store := (store q)(a := (store q a)\<lparr>element := None\<rparr>)\<rparr>) s p)"
    by (rule queue_inv_add)
  with Some show ?thesis by (simp add: change_priority_def Let_def)
qed

lemma queue_inv_shrink:
  assumes inv: "queue_inv q" and sub: "set h' \<subseteq> set (heap q)" and d: "distinct h'"
    and keep: "\<And>k a. map_of ix k = Some a \<Longrightarrow> map_of (entry_finder q) k = Some a \<and> a \<in> set h'"
    and dix: "distinct (map fst ix)"
  shows "queue_inv (q\<lparr>heap := h', entry_finder := ix\<rparr>)"
proof -
  from inv have f: "\<And>k a. map_of (entry_finder q) k = Some a \<Longrightarrow>
           a \<in> set (heap q) \<and> (\<exists>s. element (store q a) = Some s \<and> ident s = k)"
    by (simp add: queue_inv_def)
  from inv sub have "\<forall>a\<in>set h'. a < fresh q" "\<forall>a\<in>set h'. - int (counter q) < order_key (store q a)"
    by (auto simp: queue_inv_def)
  moreover from inv sub have "inj_on (\<lambda>a. order_key (store q a)) (set h')"
    by (auto simp: queue_inv_def intro: inj_on_subset)
  moreover have "\<forall>k a. map_of ix k = Some a \<longrightarrow>
           a \<in> set h' \<and> (\<exists>s. element (store q a) = Some s \<and> ident s = k)"
    using keep f by blast
  ultimately show ?thesis using d dix by (simp add: queue_inv_def)
qed

lemma queue_inv_pop:
  assumes inv: "queue_inv q"
  shows "queue_inv (snd (PriorityQueue_pop q))"
proof -
  obtain r h' where loop: "pop_loop (store q) (heap q) = (r, h')" by (cases "pop_loop (store q) (heap q)")
  from inv have dh: "distinct (heap q)" and dix: "distinct (map fst (entry_finder q))"
    and f: "\<And>k a. map_of (entry_finder q) k = Some a \<Longrightarrow>
           a \<in> set (heap q) \<and> (\<exists>s. element (store q a) = Some s \<and> ident s = k)"
    by (simp_all add: queue_inv_def)
  have sub: "set h' \<subseteq> set (heap q)" using loop by (rule pop_loop_subset)
  have d': "distinct h'" using loop dh by (rule pop_loop_distinct)
  show ?thesis
  proof (cases r)
    case (Inl e)
    with loop have dead: "\<forall>a\<in>set (heap q). \<not> live (store q) a" by (auto dest: pop_loop_Inl)
    have "\<And>k a. map_of (entry_finder q) k = Some a \<Longrightarrow> map_of (entry_finder q) k = Some a \<and> a \<in> set h'"
    proof -
      fix k a assume "map_of (entry_finder q) k = Some a"
      from f [OF this] dead have False by (auto simp: live_def)
      then show "map_of (entry_finder q) k = Some a \<and> a \<in> set h'" ..
    qed
    with inv sub d' have "queue_inv (q\<lparr>heap := h', entry_finder := entry_finder q\<rparr>)"
      using dix by (rule queue_inv_shrink)
    with loop Inl show ?thesis by (simp add: PriorityQueue_pop_def)
  next
    case (Inr as)
    obtain a s where as: "as = (a, s)" by (cases as)
    with loop Inr have loop': "pop_loop (store q) (heap q) = (Inr (a, s), h')" by simp
    from pop_loop_Inr_in [OF loop'] have a: "a \<in> set (heap q)" "element (store q a) = Some s" by simp_all
    have stays: "\<And>k b. map_of (entry_finder q) k = Some b \<Longrightarrow> k \<noteq> ident s \<Longrightarrow> b \<in> set h'"
    proof -
      fix k b assume mb: "map_of (entry_finder q) k = Some b" and ne: "k \<noteq> ident s"
      from f [OF mb] obtain s' where b: "b \<in> set (heap q)" "element (store q b) = Some s'" "ident s' = k"
        by blast
      with a ne have "b \<noteq> a" by auto
      moreover have "live (store q) b" using b by (simp add: live_def)
      ultimately show "b \<in> set h'" using pop_loop_removed [OF loop' b(1)] by blast
    qed
    show ?thesis
    proof (cases "map_of (entry_finder q) (ident s)")
      case None
      have "\<And>k b. map_of (entry_finder q) k = Some b \<Longrightarrow> map_of (entry_finder q) k = Some b \<and> b \<in> set h'"
        using stays None by (metis option.distinct(1))
      with inv sub d' have "queue_inv (q\<lparr>heap := h', entry_finder := entry_finder q\<rparr>)"
        using dix by (rule queue_inv_shrink)
      with loop' None show ?thesis by (simp add: PriorityQueue_pop_def)
    next
      case (Some c)
      have "\<And>k b. map_of (AList.delete (ident s) (entry_finder q)) k = Some b \<Longrightarrow>
              map_of (entry_finder q) k = Some b \<and> b \<in> set h'"
        using stays by (auto simp: delete_conv' split: if_splits)
      with inv sub d' have "queue_inv (q\<lparr>heap := h', entry_finder := AList.delete (ident s) (entry_finder q)\<rparr>)"
        using dix by (rule queue_inv_shrink [OF _ _ _ _ distinct_delete])
      with loop' Some show ?thesis by (simp add: PriorityQueue_pop_def)
    qed
  qed
qed

lemma queue_inv_step: "queue_inv q \<Longrightarrow> queue_inv (pq_step q x)"
  by (cases x) (simp_all add: queue_inv_add queue_inv_change_priority queue_inv_pop queue_inv_clear)

lemma queue_inv_run: "queue_inv q \<Longrightarrow> queue_inv (pq_run q ops)"
  unfolding pq_run_def by (induction ops arbitrary: q) (simp_all add: queue_inv_step)

lemma queue_inv_reachable: "queue_inv (pq_run PriorityQueue_init ops)"
  by (rule queue_inv_run [OF queue_inv_init])

subsection \<open>The size of the queue\<close>

lemma pq_run_Cons: "pq_run q (x # ops) = pq_run (pq_step q x) ops"
  by (simp add: pq_run_def)

lemma pq_run_Nil: "pq_run q [] = q"
  by (simp add: pq_run_def)

lemma keys_delete: "fst ` set (AList.delete k al) = fst ` set al - {k}"
proof -
  have "set (map fst (AList.delete k al)) = set (map fst al) - {k}"
    by (simp only: delete_keys set_removeAll)
  then show ?thesis by simp
qed

lemma keys_step:
  assumes "fst ` set (entry_finder q) = T"
  shows "fst ` set (entry_finder (pq_step q x)) = added_not_popped_step q T x"
proof (cases x)
  case (Add s p)
  with assms show ?thesis by (auto simp: PriorityQueue_add_def Let_def dom_update)
next
  case (ChangePriority s p)
  show ?thesis
  proof (cases "map_of (entry_finder q) (ident s)")
    case None
    with assms ChangePriority show ?thesis by (simp add: change_priority_def)
  next
    case (Some a)
    then have "ident s \<in> fst ` set (entry_finder q)" by (metis map_of_eq_None_iff option.distinct(1))
    with assms Some ChangePriority show ?thesis
      by (auto simp: change_priority_def PriorityQueue_add_def Let_def dom_update keys_delete)
  qed
next
  case Pop
  with assms show ?thesis
    by (auto simp: PriorityQueue_pop_def keys_delete split: prod.splits sum.splits option.splits)
next
  case Clear
  then show ?thesis by (simp add: clear_def)
qed

lemma keys_run:
  "fst ` set (entry_finder q) = T \<Longrightarrow>
   fst ` set (entry_finder (pq_run q ops)) = added_not_popped q T ops"
proof (induction ops arbitrary: q T)
  case Nil
  then show ?case by (simp add: pq_run_Nil)
next
  case (Cons x ops)
  from Cons.prems have "fst ` set (entry_finder (pq_step q x)) = added_not_popped_step q T x"
    by (rule keys_step)
  then show ?case by (simp add: pq_run_Cons Cons.IH)
qed

lemma size_card_keys:
  assumes "queue_inv q"
  shows "PriorityQueue_size q = card (fst ` set (entry_finder q))"
proof -
  from assms have "distinct (map fst (entry_finder q))" by (simp add: queue_inv_def)
  then have "card (set (map fst (entry_finder q))) = length (map fst (entry_finder q))"
    by (rule distinct_card)
  then show ?thesis by (simp add: PriorityQueue_size_def)
qed

text \<open>The index sends its keys to different live entries of the heap.\<close>

lemma index_refs:
  assumes inv: "queue_inv q"
  shows "distinct (map snd (entry_finder q))
         \<and> set (map snd (entry_finder q)) \<subseteq> {a \<in> set (heap q). live (store q) a}"
proof -
  let ?g = "\<lambda>a. map_option ident (element (store q a))"
  from inv have dk: "distinct (map fst (entry_finder q))"
    and f: "\<And>k a. map_of (entry_finder q) k = Some a \<Longrightarrow>
           a \<in> set (heap q) \<and> (\<exists>s. element (store q a) = Some s \<and> ident s = k)"
    by (simp_all add: queue_inv_def)
  have pair: "\<And>k a. (k, a) \<in> set (entry_finder q) \<Longrightarrow>
           a \<in> set (heap q) \<and> live (store q) a \<and> ?g a = Some k"
  proof -
    fix k a assume "(k, a) \<in> set (entry_finder q)"
    with dk have "map_of (entry_finder q) k = Some a" by simp
    from f [OF this] show "a \<in> set (heap q) \<and> live (store q) a \<and> ?g a = Some k"
      by (auto simp: live_def)
  qed
  have eq: "map Some (map fst (entry_finder q)) = map ?g (map snd (entry_finder q))"
  proof (simp, intro ballI)
    fix x assume x: "x \<in> set (entry_finder q)"
    obtain k a where "x = (k, a)" by (cases x)
    with pair [of k a] x show "Some (fst x) = ?g (snd x)" by auto
  qed
  have "distinct (map Some (map fst (entry_finder q)))"
    using dk by (subst distinct_map) simp
  then have "distinct (map ?g (map snd (entry_finder q)))" unfolding eq .
  then have "distinct (map snd (entry_finder q))"
    by (rule distinct_map [THEN iffD1, THEN conjunct1])
  moreover have "set (map snd (entry_finder q)) \<subseteq> {a \<in> set (heap q). live (store q) a}"
    using pair by auto
  ultimately show ?thesis by blast
qed

lemma size_le_live:
  assumes inv: "queue_inv q"
  shows "PriorityQueue_size q \<le> length (filter (live (store q)) (heap q))"
proof -
  from index_refs [OF inv] have d: "distinct (map snd (entry_finder q))"
    and sub: "set (map snd (entry_finder q)) \<subseteq> set (filter (live (store q)) (heap q))"
    by auto
  have "PriorityQueue_size q = card (set (map snd (entry_finder q)))"
    using distinct_card [OF d] by (simp add: PriorityQueue_size_def)
  also have "\<dots> \<le> card (set (filter (live (store q)) (heap q)))"
    using sub by (intro card_mono) simp_all
  also have "\<dots> \<le> length (filter (live (store q)) (heap q))" by (rule card_length)
  finally show ?thesis .
qed

lemma index_complete_init: "index_complete PriorityQueue_init"
  by (simp add: index_complete_def PriorityQueue_init_def)

lemma index_complete_clear: "index_complete (clear q)"
  by (simp add: index_complete_def clear_def)

lemma index_complete_add:
  assumes inv: "queue_inv q" and ic: "index_complete q"
    and un: "map_of (entry_finder q) (ident s) = None"
  shows "index_complete (PriorityQueue_add q s p)"
  unfolding index_complete_def
proof (intro ballI allI impI)
  let ?q' = "PriorityQueue_add q s p"
  fix a s' assume a: "a \<in> set (heap ?q')" and el: "element (store ?q' a) = Some s'"
  from inv have nin: "fresh q \<notin> set (heap q)" by (auto simp: queue_inv_def)
  from a consider "a = fresh q" | "a \<in> set (heap q)" "a \<noteq> fresh q"
    using nin by (auto simp: PriorityQueue_add_def Let_def heappush_def)
  then show "map_of (entry_finder ?q') (ident s') = Some a"
  proof cases
    case 1
    with el have "s' = s" by (simp add: PriorityQueue_add_def Let_def)
    with 1 show ?thesis by (simp add: PriorityQueue_add_def Let_def update_conv')
  next
    case 2
    with el have "element (store q a) = Some s'" by (simp add: PriorityQueue_add_def Let_def)
    with ic 2 have m: "map_of (entry_finder q) (ident s') = Some a"
      by (simp add: index_complete_def)
    with un have "ident s' \<noteq> ident s" by auto
    with m show ?thesis by (simp add: PriorityQueue_add_def Let_def update_conv')
  qed
qed

lemma index_complete_tombstone:
  assumes ic: "index_complete q" and m: "map_of (entry_finder q) k = Some a"
  shows "index_complete (q\<lparr>entry_finder := AList.delete k (entry_finder q),
                      store := (store q)(a := (store q a)\<lparr>element := None\<rparr>)\<rparr>)"
  unfolding index_complete_def
proof (intro ballI allI impI)
  let ?q1 = "q\<lparr>entry_finder := AList.delete k (entry_finder q),
                      store := (store q)(a := (store q a)\<lparr>element := None\<rparr>)\<rparr>"
  fix b s' assume b: "b \<in> set (heap ?q1)" and el: "element (store ?q1 b) = Some s'"
  from el have ne: "b \<noteq> a" by (auto split: if_splits)
  with el have "element (store q b) = Some s'" by simp
  with ic b have mb: "map_of (entry_finder q) (ident s') = Some b"
    by (simp add: index_complete_def)
  with m ne have "ident s' \<noteq> k" by auto
  with mb show "map_of (entry_finder ?q1) (ident s') = Some b" by (simp add: delete_conv')
qed

lemma index_complete_change_priority:
  assumes inv: "queue_inv q" and ic: "index_complete q"
  shows "index_complete (snd (change_priority q s p))"
proof (cases "map_of (entry_finder q) (ident s)")
  case None
  with ic show ?thesis by (simp add: change_priority_def)
next
  case (Some a)
  let ?q1 = "q\<lparr>entry_finder := AList.delete (ident s) (entry_finder q),
               store := (store q)(a := (store q a)\<lparr>element := None\<rparr>)\<rparr>"
  have "queue_inv ?q1" using inv Some by (rule queue_inv_tombstone)
  moreover have "index_complete ?q1" using ic Some by (rule index_complete_tombstone)
  moreover have "map_of (entry_finder ?q1) (ident s) = None" by (simp add: delete_conv')
  ultimately have "index_complete (PriorityQueue_add ?q1 s p)" by (rule index_complete_add)
  with Some show ?thesis by (simp add: change_priority_def Let_def)
qed

lemma index_complete_pop:
  assumes inv: "queue_inv q" and ic: "index_complete q"
  shows "index_complete (snd (PriorityQueue_pop q))"
proof -
  obtain r h' where loop: "pop_loop (store q) (heap q) = (r, h')"
    by (cases "pop_loop (store q) (heap q)")
  have sub: "set h' \<subseteq> set (heap q)" using loop by (rule pop_loop_subset)
  from inv have dh: "distinct (heap q)" by (simp add: queue_inv_def)
  have shrink: "index_complete (q\<lparr>heap := h'\<rparr>)"
    using ic sub by (auto simp: index_complete_def)
  show ?thesis
  proof (cases r)
    case (Inl e)
    with loop shrink show ?thesis by (simp add: PriorityQueue_pop_def)
  next
    case (Inr as)
    obtain a s where "as = (a, s)" by (cases as)
    with loop Inr have loop': "pop_loop (store q) (heap q) = (Inr (a, s), h')" by simp
    from pop_loop_Inr_in [OF loop'] have a: "a \<in> set (heap q)" "element (store q a) = Some s"
      by simp_all
    with ic have ma: "map_of (entry_finder q) (ident s) = Some a"
      by (simp add: index_complete_def)
    have gone: "a \<notin> set h'" using loop' dh by (rule pop_loop_taken)
    have "index_complete (q\<lparr>heap := h', entry_finder := AList.delete (ident s) (entry_finder q)\<rparr>)"
      unfolding index_complete_def
    proof (intro ballI allI impI)
      let ?q' = "q\<lparr>heap := h', entry_finder := AList.delete (ident s) (entry_finder q)\<rparr>"
      fix b s' assume b: "b \<in> set (heap ?q')" and el: "element (store ?q' b) = Some s'"
      from b sub have "b \<in> set (heap q)" by auto
      with ic el have mb: "map_of (entry_finder q) (ident s') = Some b"
        by (simp add: index_complete_def)
      from b gone have "b \<noteq> a" by auto
      with ma mb have "ident s' \<noteq> ident s" by auto
      with mb show "map_of (entry_finder ?q') (ident s') = Some b" by (simp add: delete_conv')
    qed
    with loop' ma show ?thesis by (simp add: PriorityQueue_pop_def)
  qed
qed

lemma index_complete_run:
  "queue_inv q \<Longrightarrow> index_complete q \<Longrightarrow> adds_untracked q ops \<Longrightarrow>
   index_complete (pq_run q ops)"
proof (induction ops arbitrary: q)
  case Nil
  then show ?case by (simp add: pq_run_Nil)
next
  case (Cons x ops)
  have "index_complete (pq_step q x)"
  proof (cases x)
    case (Add s p)
    with Cons.prems have "map_of (entry_finder q) (ident s) = None"
      by (simp add: get_priority_def split: option.splits)
    with Cons.prems Add show ?thesis by (simp add: index_complete_add)
  next
    case (ChangePriority s p)
    with Cons.prems show ?thesis by (simp add: index_complete_change_priority)
  next
    case Pop
    with Cons.prems show ?thesis by (simp add: index_complete_pop)
  next
    case Clear
    then show ?thesis by (simp add: index_complete_clear)
  qed
  moreover have "queue_inv (pq_step q x)" using Cons.prems(1) by (rule queue_inv_step)
  moreover have "adds_untracked (pq_step q x) ops" using Cons.prems(3) by simp
  ultimately show ?case by (simp add: pq_run_Cons Cons.IH)
qed

lemma size_eq_live:
  assumes inv: "queue_inv q" and ic: "index_complete q"
  shows "PriorityQueue_size q = length (filter (live (store q)) (heap q))"
proof -
  from index_refs [OF inv] have d: "distinct (map snd (entry_finder q))"
    and sub: "set (map snd (entry_finder q)) \<subseteq> set (filter (live (store q)) (heap q))"
    by auto
  from inv have dh: "distinct (heap q)" and dk: "distinct (map fst (entry_finder q))"
    by (simp_all add: queue_inv_def)
  have "set (filter (live (store q)) (heap q)) \<subseteq> set (map snd (entry_finder q))"
  proof
    fix a assume "a \<in> set (filter (live (store q)) (heap q))"
    then obtain s where "a \<in> set (heap q)" "element (store q a) = Some s"
      by (auto simp: live_def)
    with ic have "map_of (entry_finder q) (ident s) = Some a" by (simp add: index_complete_def)
    then have "(ident s, a) \<in> set (entry_finder q)" by (rule map_of_SomeD)
    then show "a \<in> set (map snd (entry_finder q))" by force
  qed
  with sub have eq: "set (map snd (entry_finder q)) = set (filter (live (store q)) (heap q))"
    by blast
  have "PriorityQueue_size q = card (set (map snd (entry_finder q)))"
    using distinct_card [OF d] by (simp add: PriorityQueue_size_def)
  also have "\<dots> = card (set (filter (live (store q)) (heap q)))" by (simp only: eq)
  also have "\<dots> = length (filter (live (store q)) (heap q))"
    using dh by (intro distinct_card) simp
  finally show ?thesis .
qed

text \<open>
  Claim C7 (index consistency). After any sequence of calls, \<^verbatim>\<open>size()\<close> is the
  number of payloads added and not yet popped; it is at most the number of live entries
  of the heap, which is at most the length of the heap; it is the number of live entries
  when every \<^verbatim>\<open>add\<close> of the sequence was for a payload that the index did not
  track; and after one more \<^verbatim>\<open>add\<close> and \<^verbatim>\<open>change_priority\<close> of a payload the
  heap is longer than the size, because it keeps the invalidated entry.
\<close>

theorem size_counts_tracked_payloads:
  assumes q: "q = pq_run PriorityQueue_init ops"
  shows "PriorityQueue_size q = card (added_not_popped PriorityQueue_init {} ops)
         \<and> PriorityQueue_size q \<le> length (filter (live (store q)) (heap q))
         \<and> length (filter (live (store q)) (heap q)) \<le> length (heap q)
         \<and> (adds_untracked PriorityQueue_init ops \<longrightarrow>
              PriorityQueue_size q = length (filter (live (store q)) (heap q)))
         \<and> (\<forall>s p p'. PriorityQueue_size (pq_run q [Add s p, ChangePriority s p'])
                       < length (heap (pq_run q [Add s p, ChangePriority s p'])))"
proof -
  have inv: "queue_inv q" unfolding q by (rule queue_inv_reachable)
  have "fst ` set (entry_finder (PriorityQueue_init :: 'a PriorityQueue)) = {}"
    by (simp add: PriorityQueue_init_def)
  then have "fst ` set (entry_finder q) = added_not_popped PriorityQueue_init {} ops"
    unfolding q by (rule keys_run)
  with size_card_keys [OF inv]
  have 1: "PriorityQueue_size q = card (added_not_popped PriorityQueue_init {} ops)" by simp
  have 2: "PriorityQueue_size q \<le> length (filter (live (store q)) (heap q))"
    using inv by (rule size_le_live)
  have 3: "length (filter (live (store q)) (heap q)) \<le> length (heap q)" by simp
  have 4: "adds_untracked PriorityQueue_init ops \<longrightarrow>
              PriorityQueue_size q = length (filter (live (store q)) (heap q))"
  proof
    assume "adds_untracked PriorityQueue_init ops"
    with queue_inv_init index_complete_init have "index_complete q"
      unfolding q by (rule index_complete_run)
    with inv show "PriorityQueue_size q = length (filter (live (store q)) (heap q))"
      by (rule size_eq_live)
  qed
  have 5: "\<forall>s p p'. PriorityQueue_size (pq_run q [Add s p, ChangePriority s p'])
                       < length (heap (pq_run q [Add s p, ChangePriority s p']))"
  proof (intro allI)
    fix s p p'
    let ?q1 = "PriorityQueue_add q s p"
    let ?q2 = "pq_run q [Add s p, ChangePriority s p']"
    have q2: "?q2 = snd (change_priority ?q1 s p')" by (simp add: pq_run_def)
    have inv1: "queue_inv ?q1" using inv by (rule queue_inv_add)
    have inv2: "queue_inv ?q2" using inv by (rule queue_inv_run)
    have m: "map_of (entry_finder ?q1) (ident s) = Some (fresh q)"
      by (simp add: PriorityQueue_add_def Let_def update_conv')
    have hp: "heap ?q2 = heap q @ [fresh q, Suc (fresh q)]"
      unfolding q2 using m by (simp add: change_priority_def PriorityQueue_add_def Let_def heappush_def)
    have dead: "\<not> live (store ?q2) (fresh q)"
      unfolding q2 using m by (simp add: change_priority_def PriorityQueue_add_def Let_def live_def)
    have "PriorityQueue_size ?q2 \<le> length (filter (live (store ?q2)) (heap ?q2))"
      using inv2 by (rule size_le_live)
    also have "\<dots> < length (heap ?q2)"
    proof (rule length_filter_less)
      show "fresh q \<in> set (heap ?q2)" by (simp add: hp)
      show "\<not> live (store ?q2) (fresh q)" by (rule dead)
    qed
    finally show "PriorityQueue_size ?q2 < length (heap ?q2)" .
  qed
  from 1 2 3 4 5 show ?thesis by (simp only: simp_thms)
qed

text \<open>
  A sequence that respects the precondition of \<^verbatim>\<open>add\<close>: the size is 1, the heap
  holds two entries, one of them invalidated.
\<close>

theorem size_counts_tracked_payloads_witness:
  "adds_untracked PriorityQueue_init
       [Add \<lparr>ident = ''A'', path_cost = 5\<rparr> 5, Add \<lparr>ident = ''B'', path_cost = 3\<rparr> 3,
        ChangePriority \<lparr>ident = ''A'', path_cost = 2\<rparr> 2, Pop]
   \<and> PriorityQueue_size (pq_run PriorityQueue_init
       [Add \<lparr>ident = ''A'', path_cost = 5\<rparr> 5, Add \<lparr>ident = ''B'', path_cost = 3\<rparr> 3,
        ChangePriority \<lparr>ident = ''A'', path_cost = 2\<rparr> 2, Pop])
     = length (filter (live (store (pq_run PriorityQueue_init
       [Add \<lparr>ident = ''A'', path_cost = 5\<rparr> 5, Add \<lparr>ident = ''B'', path_cost = 3\<rparr> 3,
        ChangePriority \<lparr>ident = ''A'', path_cost = 2\<rparr> 2, Pop])))
         (heap (pq_run PriorityQueue_init
       [Add \<lparr>ident = ''A'', path_cost = 5\<rparr> 5, Add \<lparr>ident = ''B'', path_cost = 3\<rparr> 3,
        ChangePriority \<lparr>ident = ''A'', path_cost = 2\<rparr> 2, Pop])))
   \<and> PriorityQueue_size (pq_run PriorityQueue_init
       [Add \<lparr>ident = ''A'', path_cost = 5\<rparr> 5, Add \<lparr>ident = ''B'', path_cost = 3\<rparr> 3,
        ChangePriority \<lparr>ident = ''A'', path_cost = 2\<rparr> 2, Pop]) = 1
   \<and> length (heap (pq_run PriorityQueue_init
       [Add \<lparr>ident = ''A'', path_cost = 5\<rparr> 5, Add \<lparr>ident = ''B'', path_cost = 3\<rparr> 3,
        ChangePriority \<lparr>ident = ''A'', path_cost = 2\<rparr> 2, Pop])) = 2"
proof -
  let ?ops = "[Add \<lparr>ident = ''A'', path_cost = 5\<rparr> 5, Add \<lparr>ident = ''B'', path_cost = 3\<rparr> 3,
        ChangePriority \<lparr>ident = ''A'', path_cost = 2\<rparr> 2, Pop]"
  let ?q = "pq_run PriorityQueue_init ?ops"
  have hyp: "adds_untracked PriorityQueue_init ?ops"
    by (simp add: eval_defs)
  from size_counts_tracked_payloads [OF refl, of ?ops] hyp
  have "PriorityQueue_size ?q = length (filter (live (store ?q)) (heap ?q))" by blast
  moreover have "PriorityQueue_size ?q = 1" "length (heap ?q) = 2"
    by (simp_all add: eval_defs)
  ultimately show ?thesis using hyp by blast
qed

subsection \<open>The order of pops\<close>

lemma pop_store: "store (snd (PriorityQueue_pop q)) = store q"
  by (simp add: PriorityQueue_pop_def split: prod.splits sum.splits option.splits)

lemma pop_heap: "pop_loop (store q) (heap q) = (r, h') \<Longrightarrow> heap (snd (PriorityQueue_pop q)) = h'"
  by (simp add: PriorityQueue_pop_def split: prod.splits sum.splits option.splits)

lemma popped_entry_loop:
  "popped_entry q = Some a \<Longrightarrow> \<exists>s h'. pop_loop (store q) (heap q) = (Inr (a, s), h')"
  by (auto simp: popped_entry_def split: prod.splits sum.splits option.splits)

lemma pop_Inr_loop:
  "PriorityQueue_pop q = (Inr s, q') \<Longrightarrow>
     \<exists>a. pop_loop (store q) (heap q) = (Inr (a, s), heap q') \<and> popped_entry q = Some a"
  by (auto simp: PriorityQueue_pop_def popped_entry_def split: prod.splits sum.splits option.splits)

lemma distinct_keys:
  assumes "queue_inv q" "a \<in> set (heap q)" "b \<in> set (heap q)" "a \<noteq> b"
  shows "entry_key (store q) a \<noteq> entry_key (store q) b"
proof -
  from assms(1) have "inj_on (\<lambda>a. order_key (store q a)) (set (heap q))"
    by (simp add: queue_inv_def)
  with assms(2-4) have "order_key (store q a) \<noteq> order_key (store q b)"
    by (auto dest: inj_onD)
  then show ?thesis by (simp add: entry_key_def)
qed

text \<open>Priorities popped in a row.\<close>

lemma popped_priorities_ge:
  "\<forall>b\<in>set (heap q). m \<le> priority (store q b) \<Longrightarrow> \<forall>p\<in>set (popped_priorities n q). m \<le> p"
proof (induction n arbitrary: q)
  case 0
  show ?case by simp
next
  case (Suc n)
  let ?q' = "snd (PriorityQueue_pop q)"
  obtain r h' where loop: "pop_loop (store q) (heap q) = (r, h')"
    by (cases "pop_loop (store q) (heap q)")
  have "set (heap ?q') \<subseteq> set (heap q)"
    using pop_loop_subset [OF loop] pop_heap [OF loop] by simp
  with Suc.prems have "\<forall>b\<in>set (heap ?q'). m \<le> priority (store ?q' b)"
    by (auto simp: pop_store)
  then have rest: "\<forall>p\<in>set (popped_priorities n ?q'). m \<le> p" by (rule Suc.IH)
  show ?case
  proof (cases "popped_entry q")
    case None
    with rest show ?thesis by simp
  next
    case (Some a)
    then obtain s h'' where "pop_loop (store q) (heap q) = (Inr (a, s), h'')"
      using popped_entry_loop by blast
    then have "a \<in> set (heap q)" using pop_loop_Inr_in by fast
    with Suc.prems have "m \<le> priority (store q a)" by blast
    with rest Some show ?thesis by simp
  qed
qed

lemma sorted_popped_priorities: "sorted (popped_priorities n q)"
proof (induction n arbitrary: q)
  case 0
  show ?case by simp
next
  case (Suc n)
  let ?q' = "snd (PriorityQueue_pop q)"
  show ?case
  proof (cases "popped_entry q")
    case None
    with Suc.IH show ?thesis by simp
  next
    case (Some a)
    then obtain s h' where loop: "pop_loop (store q) (heap q) = (Inr (a, s), h')"
      using popped_entry_loop by blast
    have "\<forall>b\<in>set (heap ?q'). priority (store q a) \<le> priority (store ?q' b)"
    proof
      fix b assume "b \<in> set (heap ?q')"
      then have "b \<in> set h'" using pop_heap [OF loop] by simp
      then have "entry_key (store q) a \<le> entry_key (store q) b"
        by (rule pop_loop_rest_ge [OF loop])
      then show "priority (store q a) \<le> priority (store ?q' b)"
        by (simp add: pop_store key_le_priority)
    qed
    then have "\<forall>p\<in>set (popped_priorities n ?q'). priority (store q a) \<le> p"
      by (rule popped_priorities_ge)
    with Suc.IH [of ?q'] Some show ?thesis by simp
  qed
qed

lemma queue_inv_index:
  "queue_inv q \<Longrightarrow> map_of (entry_finder q) k = Some a \<Longrightarrow>
     a \<in> set (heap q) \<and> (\<exists>s. element (store q a) = Some s \<and> ident s = k)"
  unfolding queue_inv_def by blast

lemma live_pop_returns:
  assumes ic: "index_complete q" and a: "a \<in> set (heap q)" and la: "live (store q) a"
  shows "\<exists>c s h'. pop_loop (store q) (heap q) = (Inr (c, s), h')
           \<and> PriorityQueue_pop q
               = (Inr s, q\<lparr>heap := h', entry_finder := AList.delete (ident s) (entry_finder q)\<rparr>)
           \<and> popped_entry q = Some c"
proof -
  obtain r h' where loop: "pop_loop (store q) (heap q) = (r, h')"
    by (cases "pop_loop (store q) (heap q)")
  show ?thesis
  proof (cases r)
    case (Inl e)
    with loop a la show ?thesis by (auto dest: pop_loop_Inl)
  next
    case (Inr cs)
    obtain c s where "cs = (c, s)" by (cases cs)
    with loop Inr have loop': "pop_loop (store q) (heap q) = (Inr (c, s), h')" by simp
    from pop_loop_Inr_in [OF loop'] have "c \<in> set (heap q)" "element (store q c) = Some s"
      by simp_all
    with ic have "map_of (entry_finder q) (ident s) = Some c" by (simp add: index_complete_def)
    with loop' show ?thesis by (simp add: PriorityQueue_pop_def popped_entry_def)
  qed
qed

lemma nonempty_pop_returns:
  assumes inv: "queue_inv q" and ic: "index_complete q" and sz: "0 < PriorityQueue_size q"
  shows "\<exists>s q'. PriorityQueue_pop q = (Inr s, q')"
proof -
  from sz obtain k a where "(k, a) \<in> set (entry_finder q)"
    by (cases "entry_finder q") (auto simp: PriorityQueue_size_def)
  moreover from inv have "distinct (map fst (entry_finder q))" by (simp add: queue_inv_def)
  ultimately have "map_of (entry_finder q) k = Some a" by simp
  from queue_inv_index [OF inv this] have "a \<in> set (heap q)" "live (store q) a"
    by (auto simp: live_def)
  from live_pop_returns [OF ic this] show ?thesis by blast
qed

text \<open>
  Claim C5 (heap order). After any sequence of calls, a \<^verbatim>\<open>pop\<close> that returns
  \<open>s\<close> has taken from the heap the live entry \<open>a\<close> that holds \<open>s\<close> and whose
  (priority, order key) is strictly below that of every other live entry; the entries it
  took off the heap besides \<open>a\<close> are invalidated ones that came before \<open>a\<close>, and
  every entry left comes after \<open>a\<close>. When every \<^verbatim>\<open>add\<close> of the sequence was
  for a payload that the index did not track and the size is not 0, \<^verbatim>\<open>pop\<close>
  does return. The priorities of the entries returned by any
  number of calls of \<^verbatim>\<open>pop\<close> in a row are non-decreasing.
\<close>

theorem pop_returns_least_live:
  assumes q: "q = pq_run PriorityQueue_init ops"
  shows "(PriorityQueue_pop q = (Inr s, q') \<longrightarrow>
           (\<exists>a\<in>set (heap q). popped_entry q = Some a \<and> element (store q a) = Some s
              \<and> (\<forall>b\<in>set (heap q). live (store q) b \<and> b \<noteq> a \<longrightarrow>
                    entry_key (store q) a < entry_key (store q) b)
              \<and> a \<notin> set (heap q')
              \<and> (\<forall>b\<in>set (heap q). b \<notin> set (heap q') \<and> b \<noteq> a \<longrightarrow>
                    \<not> live (store q) b \<and> entry_key (store q) b < entry_key (store q) a)
              \<and> (\<forall>b\<in>set (heap q'). b \<in> set (heap q)
                    \<and> entry_key (store q) a < entry_key (store q) b)))
         \<and> (adds_untracked PriorityQueue_init ops \<and> 0 < PriorityQueue_size q \<longrightarrow>
              (\<exists>s q'. PriorityQueue_pop q = (Inr s, q')))
         \<and> sorted (popped_priorities n q)"
proof (intro conjI)
  show "sorted (popped_priorities n q)" by (rule sorted_popped_priorities)
next
  have inv: "queue_inv q" unfolding q by (rule queue_inv_reachable)
  show "adds_untracked PriorityQueue_init ops \<and> 0 < PriorityQueue_size q \<longrightarrow>
              (\<exists>s q'. PriorityQueue_pop q = (Inr s, q'))"
  proof
    assume h: "adds_untracked PriorityQueue_init ops \<and> 0 < PriorityQueue_size q"
    with queue_inv_init index_complete_init have "index_complete q"
      unfolding q by (blast intro: index_complete_run)
    with inv h show "\<exists>s q'. PriorityQueue_pop q = (Inr s, q')"
      by (blast intro: nonempty_pop_returns)
  qed
next
  have inv: "queue_inv q" unfolding q by (rule queue_inv_reachable)
  then have dh: "distinct (heap q)" by (simp add: queue_inv_def)
  show "PriorityQueue_pop q = (Inr s, q') \<longrightarrow>
           (\<exists>a\<in>set (heap q). popped_entry q = Some a \<and> element (store q a) = Some s
              \<and> (\<forall>b\<in>set (heap q). live (store q) b \<and> b \<noteq> a \<longrightarrow>
                    entry_key (store q) a < entry_key (store q) b)
              \<and> a \<notin> set (heap q')
              \<and> (\<forall>b\<in>set (heap q). b \<notin> set (heap q') \<and> b \<noteq> a \<longrightarrow>
                    \<not> live (store q) b \<and> entry_key (store q) b < entry_key (store q) a)
              \<and> (\<forall>b\<in>set (heap q'). b \<in> set (heap q)
                    \<and> entry_key (store q) a < entry_key (store q) b))"
  proof
    assume pop: "PriorityQueue_pop q = (Inr s, q')"
    from pop_Inr_loop [OF pop] obtain a
      where loop: "pop_loop (store q) (heap q) = (Inr (a, s), heap q')"
        and pe: "popped_entry q = Some a" by blast
    from pop_loop_Inr_in [OF loop] have a: "a \<in> set (heap q)" "element (store q a) = Some s"
      by simp_all
    have sub: "set (heap q') \<subseteq> set (heap q)" using loop by (rule pop_loop_subset)
    have gone: "a \<notin> set (heap q')" using loop dh by (rule pop_loop_taken)
    have lt: "\<And>b. b \<in> set (heap q) \<Longrightarrow> b \<noteq> a \<Longrightarrow>
                 entry_key (store q) a \<le> entry_key (store q) b \<Longrightarrow>
                 entry_key (store q) a < entry_key (store q) b"
      using distinct_keys [OF inv a(1)] by (simp add: less_le)
    have 1: "\<forall>b\<in>set (heap q). live (store q) b \<and> b \<noteq> a \<longrightarrow>
                entry_key (store q) a < entry_key (store q) b"
      using pop_loop_live_ge [OF loop] lt by blast
    have 2: "\<forall>b\<in>set (heap q). b \<notin> set (heap q') \<and> b \<noteq> a \<longrightarrow>
                \<not> live (store q) b \<and> entry_key (store q) b < entry_key (store q) a"
    proof (intro ballI impI)
      fix b assume b: "b \<in> set (heap q)" and out: "b \<notin> set (heap q') \<and> b \<noteq> a"
      with pop_loop_removed [OF loop b]
      have "\<not> live (store q) b" and le: "entry_key (store q) b \<le> entry_key (store q) a"
        by blast+
      moreover have "entry_key (store q) b \<noteq> entry_key (store q) a"
        using distinct_keys [OF inv b a(1)] out by blast
      ultimately show "\<not> live (store q) b \<and> entry_key (store q) b < entry_key (store q) a"
        by (simp add: less_le)
    qed
    have 3: "\<forall>b\<in>set (heap q'). b \<in> set (heap q)
                \<and> entry_key (store q) a < entry_key (store q) b"
    proof
      fix b assume b: "b \<in> set (heap q')"
      with sub have bq: "b \<in> set (heap q)" by blast
      from b gone have "b \<noteq> a" by blast
      with lt [OF bq] pop_loop_rest_ge [OF loop b] bq
      show "b \<in> set (heap q) \<and> entry_key (store q) a < entry_key (store q) b" by blast
    qed
    from a pe gone 1 2 3
    show "\<exists>a\<in>set (heap q). popped_entry q = Some a \<and> element (store q a) = Some s
              \<and> (\<forall>b\<in>set (heap q). live (store q) b \<and> b \<noteq> a \<longrightarrow>
                    entry_key (store q) a < entry_key (store q) b)
              \<and> a \<notin> set (heap q')
              \<and> (\<forall>b\<in>set (heap q). b \<notin> set (heap q') \<and> b \<noteq> a \<longrightarrow>
                    \<not> live (store q) b \<and> entry_key (store q) b < entry_key (store q) a)
              \<and> (\<forall>b\<in>set (heap q'). b \<in> set (heap q)
                    \<and> entry_key (store q) a < entry_key (store q) b)"
      by blast
  qed
qed

text \<open>
  The spec's scenario: A is added at priority 5, B at 3, and the priority of A is changed
  to 2; \<^verbatim>\<open>pop\<close> returns A, and the priorities popped are 2 and 3.
\<close>

theorem pop_returns_least_live_witness:
  "adds_untracked PriorityQueue_init
       [Add \<lparr>ident = ''A'', path_cost = 5\<rparr> 5, Add \<lparr>ident = ''B'', path_cost = 3\<rparr> 3,
        ChangePriority \<lparr>ident = ''A'', path_cost = 2\<rparr> 2]
   \<and> 0 < PriorityQueue_size (pq_run PriorityQueue_init
       [Add \<lparr>ident = ''A'', path_cost = 5\<rparr> 5, Add \<lparr>ident = ''B'', path_cost = 3\<rparr> 3,
        ChangePriority \<lparr>ident = ''A'', path_cost = 2\<rparr> 2])
   \<and> PriorityQueue_pop (pq_run PriorityQueue_init
       [Add \<lparr>ident = ''A'', path_cost = 5\<rparr> 5, Add \<lparr>ident = ''B'', path_cost = 3\<rparr> 3,
        ChangePriority \<lparr>ident = ''A'', path_cost = 2\<rparr> 2])
     = (Inr \<lparr>ident = ''A'', path_cost = 2\<rparr>,
        snd (PriorityQueue_pop (pq_run PriorityQueue_init
       [Add \<lparr>ident = ''A'', path_cost = 5\<rparr> 5, Add \<lparr>ident = ''B'', path_cost = 3\<rparr> 3,
        ChangePriority \<lparr>ident = ''A'', path_cost = 2\<rparr> 2])))
   \<and> (\<exists>a\<in>set (heap (pq_run PriorityQueue_init
       [Add \<lparr>ident = ''A'', path_cost = 5\<rparr> 5, Add \<lparr>ident = ''B'', path_cost = 3\<rparr> 3,
        ChangePriority \<lparr>ident = ''A'', path_cost = 2\<rparr> 2])).
         popped_entry (pq_run PriorityQueue_init
       [Add \<lparr>ident = ''A'', path_cost = 5\<rparr> 5, Add \<lparr>ident = ''B'', path_cost = 3\<rparr> 3,
        ChangePriority \<lparr>ident = ''A'', path_cost = 2\<rparr> 2]) = Some a)
   \<and> popped_priorities 3 (pq_run PriorityQueue_init
       [Add \<lparr>ident = ''A'', path_cost = 5\<rparr> 5, Add \<lparr>ident = ''B'', path_cost = 3\<rparr> 3,
        ChangePriority \<lparr>ident = ''A'', path_cost = 2\<rparr> 2]) = [2, 3]
   \<and> sorted (popped_priorities 3 (pq_run PriorityQueue_init
       [Add \<lparr>ident = ''A'', path_cost = 5\<rparr> 5, Add \<lparr>ident = ''B'', path_cost = 3\<rparr> 3,
        ChangePriority \<lparr>ident = ''A'', path_cost = 2\<rparr> 2]))"
proof -
  let ?ops = "[Add \<lparr>ident = ''A'', path_cost = 5\<rparr> 5, Add \<lparr>ident = ''B'', path_cost = 3\<rparr> 3,
        ChangePriority \<lparr>ident = ''A'', path_cost = 2\<rparr> 2]"
  let ?q = "pq_run PriorityQueue_init ?ops"
  have pre: "adds_untracked PriorityQueue_init ?ops" by (simp add: eval_defs)
  have sz: "0 < PriorityQueue_size ?q" by (simp add: eval_defs)
  have "fst (PriorityQueue_pop ?q) = Inr \<lparr>ident = ''A'', path_cost = 2\<rparr>"
    by (simp add: eval_defs)
  then have hyp: "PriorityQueue_pop ?q
      = (Inr \<lparr>ident = ''A'', path_cost = 2\<rparr>, snd (PriorityQueue_pop ?q))"
    by (simp add: prod_eq_iff)
  have pp: "popped_priorities 3 ?q = [2, 3]"
    by (simp add: numeral_3_eq_3 eval_defs)
  from pop_returns_least_live [OF refl, of ?ops "\<lparr>ident = ''A'', path_cost = 2\<rparr>"
      "snd (PriorityQueue_pop ?q)" 3] hyp
  have "(\<exists>a\<in>set (heap ?q). popped_entry ?q = Some a) \<and> sorted (popped_priorities 3 ?q)"
    by blast
  with pre sz hyp pp show ?thesis by (simp only: simp_thms)
qed

subsection \<open>Ties\<close>

lemma add_order_key_below:
  assumes inv: "queue_inv q" and b: "b \<in> set (heap q)"
  shows "order_key (store (PriorityQueue_add q s p) (fresh q))
           < order_key (store (PriorityQueue_add q s p) b)"
proof -
  from inv b have "b \<noteq> fresh q" and "- int (counter q) < order_key (store q b)"
    by (auto simp: queue_inv_def)
  then show ?thesis by (simp add: PriorityQueue_add_def Let_def)
qed

lemma later_live_blocks_pop:
  assumes a: "a \<in> set (heap q)" and b: "b \<in> set (heap q)"
    and la: "live (store q) a" and lb: "live (store q) b"
    and pr: "priority (store q a) = priority (store q b)"
    and later: "order_key (store q b) < order_key (store q a)"
  shows "popped_entry q \<noteq> Some a \<and> a \<in> set (heap (snd (PriorityQueue_pop q)))
         \<and> live (store (snd (PriorityQueue_pop q))) a"
proof -
  obtain r h' where loop: "pop_loop (store q) (heap q) = (r, h')"
    by (cases "pop_loop (store q) (heap q)")
  have lt: "entry_key (store q) b < entry_key (store q) a"
    using pr later by (simp add: entry_key_def less_prod_def)
  have not_a: "\<And>s. r \<noteq> Inr (a, s)"
  proof
    fix s assume "r = Inr (a, s)"
    with loop have "pop_loop (store q) (heap q) = (Inr (a, s), h')" by simp
    from pop_loop_live_ge [OF this b lb] lt show False by simp
  qed
  have "a \<in> set h'"
  proof (cases r)
    case (Inl e)
    with loop la a show ?thesis by (auto dest: pop_loop_Inl)
  next
    case (Inr cs)
    obtain c s where "cs = (c, s)" by (cases cs)
    with Inr loop have loop': "pop_loop (store q) (heap q) = (Inr (c, s), h')" by simp
    from not_a Inr \<open>cs = (c, s)\<close> have "a \<noteq> c" by auto
    with pop_loop_removed [OF loop' a] la show ?thesis by blast
  qed
  moreover have "popped_entry q \<noteq> Some a"
  proof
    assume "popped_entry q = Some a"
    then obtain s h'' where "pop_loop (store q) (heap q) = (Inr (a, s), h'')"
      using popped_entry_loop by blast
    with loop have "r = Inr (a, s)" by simp
    with not_a show False by blast
  qed
  ultimately show ?thesis using la pop_heap [OF loop] by (simp add: pop_store)
qed

lemma later_popped_first:
  assumes "queue_inv q" "index_complete q" "a \<in> set (heap q)" "b \<in> set (heap q)"
    "live (store q) a" "live (store q) b" "priority (store q a) = priority (store q b)"
    "order_key (store q b) < order_key (store q a)"
  shows "a \<in> set (popped_entries n q) \<longrightarrow>
           b \<in> set (takeWhile (\<lambda>c. c \<noteq> a) (popped_entries n q))"
  using assms
proof (induction n arbitrary: q)
  case 0
  show ?case by simp
next
  case (Suc n)
  let ?q' = "snd (PriorityQueue_pop q)"
  from live_pop_returns [OF Suc.prems(2,3,5)] obtain c s h'
    where loop: "pop_loop (store q) (heap q) = (Inr (c, s), h')"
      and pe: "popped_entry q = Some c" by blast
  from later_live_blocks_pop [OF Suc.prems(3-8)]
  have ca: "c \<noteq> a" and a': "a \<in> set (heap ?q')" using pe by auto
  have unfold: "popped_entries (Suc n) q = c # popped_entries n ?q'" using pe by simp
  show ?case
  proof (cases "c = b")
    case True
    with ca show ?thesis unfolding unfold by simp
  next
    case False
    with pop_loop_removed [OF loop Suc.prems(4)] Suc.prems(6) have "b \<in> set h'" by blast
    then have b': "b \<in> set (heap ?q')" using pop_heap [OF loop] by simp
    have "a \<in> set (popped_entries n ?q') \<longrightarrow>
            b \<in> set (takeWhile (\<lambda>c. c \<noteq> a) (popped_entries n ?q'))"
      using Suc.prems
      by (intro Suc.IH) (simp_all add: queue_inv_pop index_complete_pop a' b' pop_store)
    with ca show ?thesis unfolding unfold by simp
  qed
qed

text \<open>
  Claim C4 (LIFO tie-break). After any sequence of calls, the entry that \<^verbatim>\<open>add\<close>
  creates has an order key below that of every entry in the heap, so of two entries the
  one inserted later has the lower order key. While a live entry \<open>b\<close> of the same
  priority as \<open>a\<close> and inserted later is in the heap, \<^verbatim>\<open>pop\<close> does not return
  the element of \<open>a\<close>, and \<open>a\<close> stays in the heap, live. When every
  \<^verbatim>\<open>add\<close> of the sequence was for a payload that the index did not track, then in
  a row of calls of \<^verbatim>\<open>pop\<close> that returns \<open>a\<close>, \<open>b\<close> is returned before
  \<open>a\<close>. Two payloads added one after the other at the same priority are such a
  pair of entries.
\<close>

theorem lifo_tie_break:
  assumes q: "q = pq_run PriorityQueue_init ops"
  shows "(\<forall>b\<in>set (heap q).
            order_key (store (PriorityQueue_add q s p) (fresh q))
              < order_key (store (PriorityQueue_add q s p) b))
         \<and> (later_tie q a b \<longrightarrow>
              popped_entry q \<noteq> Some a \<and> a \<in> set (heap (snd (PriorityQueue_pop q)))
              \<and> live (store (snd (PriorityQueue_pop q))) a)
         \<and> (later_tie q a b \<and> adds_untracked PriorityQueue_init ops
              \<and> a \<in> set (popped_entries n q) \<longrightarrow>
              b \<in> set (takeWhile (\<lambda>c. c \<noteq> a) (popped_entries n q)))
         \<and> later_tie (PriorityQueue_add (PriorityQueue_add q x p) y p) (fresh q) (Suc (fresh q))"
proof -
  have inv: "queue_inv q" unfolding q by (rule queue_inv_reachable)
  have newest: "\<forall>b\<in>set (heap q).
            order_key (store (PriorityQueue_add q s p) (fresh q))
              < order_key (store (PriorityQueue_add q s p) b)"
    using inv by (blast intro: add_order_key_below)
  have blocked: "later_tie q a b \<longrightarrow>
              popped_entry q \<noteq> Some a \<and> a \<in> set (heap (snd (PriorityQueue_pop q)))
              \<and> live (store (snd (PriorityQueue_pop q))) a"
    unfolding later_tie_def using later_live_blocks_pop [of a q b] by blast
  have first: "later_tie q a b \<and> adds_untracked PriorityQueue_init ops
              \<and> a \<in> set (popped_entries n q) \<longrightarrow>
              b \<in> set (takeWhile (\<lambda>c. c \<noteq> a) (popped_entries n q))"
  proof
    assume h: "later_tie q a b \<and> adds_untracked PriorityQueue_init ops
              \<and> a \<in> set (popped_entries n q)"
    with queue_inv_init index_complete_init have ic: "index_complete q"
      unfolding q by (blast intro: index_complete_run)
    from h have "a \<in> set (heap q)" "b \<in> set (heap q)" "live (store q) a" "live (store q) b"
      "priority (store q a) = priority (store q b)"
      "order_key (store q b) < order_key (store q a)"
      by (simp_all add: later_tie_def)
    from later_popped_first [OF inv ic this, of n] h
    show "b \<in> set (takeWhile (\<lambda>c. c \<noteq> a) (popped_entries n q))" by blast
  qed
  have two: "later_tie (PriorityQueue_add (PriorityQueue_add q x p) y p) (fresh q) (Suc (fresh q))"
    by (simp add: later_tie_def PriorityQueue_add_def Let_def heappush_def live_def)
  from newest blocked first two show ?thesis by (simp only: simp_thms)
qed

text \<open>
  The spec's scenario: X and Y are added at priority 1; \<^verbatim>\<open>pop\<close> returns Y and
  then X.
\<close>

theorem lifo_tie_break_witness:
  "later_tie (pq_run PriorityQueue_init
       [Add \<lparr>ident = ''X'', path_cost = 1\<rparr> 1, Add \<lparr>ident = ''Y'', path_cost = 1\<rparr> 1]) 0 (Suc 0)
   \<and> adds_untracked PriorityQueue_init
       [Add \<lparr>ident = ''X'', path_cost = 1\<rparr> 1, Add \<lparr>ident = ''Y'', path_cost = 1\<rparr> 1]
   \<and> popped_entries 2 (pq_run PriorityQueue_init
       [Add \<lparr>ident = ''X'', path_cost = 1\<rparr> 1, Add \<lparr>ident = ''Y'', path_cost = 1\<rparr> 1]) = [Suc 0, 0]
   \<and> popped_entry (pq_run PriorityQueue_init
       [Add \<lparr>ident = ''X'', path_cost = 1\<rparr> 1, Add \<lparr>ident = ''Y'', path_cost = 1\<rparr> 1]) \<noteq> Some 0
   \<and> Suc 0 \<in> set (takeWhile (\<lambda>c. c \<noteq> 0) (popped_entries 2 (pq_run PriorityQueue_init
       [Add \<lparr>ident = ''X'', path_cost = 1\<rparr> 1, Add \<lparr>ident = ''Y'', path_cost = 1\<rparr> 1])))
   \<and> fst (PriorityQueue_pop (pq_run PriorityQueue_init
       [Add \<lparr>ident = ''X'', path_cost = 1\<rparr> 1, Add \<lparr>ident = ''Y'', path_cost = 1\<rparr> 1]))
     = Inr \<lparr>ident = ''Y'', path_cost = 1\<rparr>
   \<and> fst (PriorityQueue_pop (pq_run PriorityQueue_init
       [Add \<lparr>ident = ''X'', path_cost = 1\<rparr> 1, Add \<lparr>ident = ''Y'', path_cost = 1\<rparr> 1, Pop]))
     = Inr \<lparr>ident = ''X'', path_cost = 1\<rparr>"
proof -
  let ?ops = "[Add \<lparr>ident = ''X'', path_cost = 1\<rparr> 1, Add \<lparr>ident = ''Y'', path_cost = 1\<rparr> 1]"
  let ?q = "pq_run PriorityQueue_init ?ops"
  have tie: "later_tie ?q 0 (Suc 0)"
    by (simp add: later_tie_def eval_defs)
  have pre: "adds_untracked PriorityQueue_init ?ops"
    by (simp add: eval_defs)
  have pes: "popped_entries 2 ?q = [Suc 0, 0]"
    by (simp add: numeral_2_eq_2 eval_defs)
  then have mem: "0 \<in> set (popped_entries 2 ?q)" by simp
  note inst = lifo_tie_break [OF refl, of ?ops _ _ 0 "Suc 0" 2]
  from inst tie have 1: "popped_entry ?q \<noteq> Some 0" by blast
  from inst tie pre mem
  have 2: "Suc 0 \<in> set (takeWhile (\<lambda>c. c \<noteq> 0) (popped_entries 2 ?q))" by blast
  have 3: "fst (PriorityQueue_pop ?q) = Inr \<lparr>ident = ''Y'', path_cost = 1\<rparr>"
    by (simp add: eval_defs)
  have 4: "fst (PriorityQueue_pop (pq_run PriorityQueue_init
       [Add \<lparr>ident = ''X'', path_cost = 1\<rparr> 1, Add \<lparr>ident = ''Y'', path_cost = 1\<rparr> 1, Pop]))
     = Inr \<lparr>ident = ''X'', path_cost = 1\<rparr>"
    by (simp add: eval_defs)
  from tie pre pes 1 2 3 4 show ?thesis by (simp only: simp_thms)
qed

subsection \<open>Reset\<close>

lemma keys_step_subset:
  "fst ` set (entry_finder (pq_step q x))
     \<subseteq> fst ` set (entry_finder q) \<union> (case x of Add s p \<Rightarrow> {ident s} | _ \<Rightarrow> {})"
proof -
  have "fst ` set (entry_finder (pq_step q x))
          = added_not_popped_step q (fst ` set (entry_finder q)) x"
    by (rule keys_step) simp
  then show ?thesis by (cases x) (auto split: sum.splits)
qed

lemma not_added_not_tracked:
  "k \<notin> fst ` set (entry_finder q) \<Longrightarrow> \<forall>s p. Add s p \<in> set ops \<longrightarrow> ident s \<noteq> k \<Longrightarrow>
   k \<notin> fst ` set (entry_finder (pq_run q ops))"
proof (induction ops arbitrary: q)
  case Nil
  then show ?case by (simp add: pq_run_Nil)
next
  case (Cons x ops)
  have "k \<notin> fst ` set (entry_finder (pq_step q x))"
  proof (cases x)
    case (Add s p)
    with Cons.prems have "ident s \<noteq> k" by auto
    with Cons.prems(1) keys_step_subset [of q x] Add show ?thesis by auto
  next
    case (ChangePriority s p)
    with Cons.prems(1) keys_step_subset [of q x] show ?thesis by auto
  next
    case Pop
    with Cons.prems(1) keys_step_subset [of q x] show ?thesis by auto
  next
    case Clear
    with Cons.prems(1) keys_step_subset [of q x] show ?thesis by auto
  qed
  moreover have "\<forall>s p. Add s p \<in> set ops \<longrightarrow> ident s \<noteq> k" using Cons.prems(2) by auto
  ultimately show ?case by (simp add: pq_run_Cons Cons.IH)
qed

lemma get_priority_None_iff:
  "get_priority q s = None \<longleftrightarrow> ident s \<notin> fst ` set (entry_finder q)"
proof (cases "map_of (entry_finder q) (ident s)")
  case None
  then have "ident s \<notin> fst ` set (entry_finder q)" by (simp add: map_of_eq_None_iff)
  moreover have "get_priority q s = None" using None by (simp add: get_priority_def)
  ultimately show ?thesis by simp
next
  case (Some a)
  then have "ident s \<in> fst ` set (entry_finder q)"
    by (metis map_of_eq_None_iff option.distinct(1))
  with Some show ?thesis by (simp add: get_priority_def)
qed

text \<open>
  Claim C8 (reset isolation). After \<^verbatim>\<open>clear\<close> the size is 0, no payload has a
  priority, and the counter is 0, so the next entry added gets order key 0; after
  \<^verbatim>\<open>prepare\<close>, which calls \<^verbatim>\<open>clear\<close>, the frontier has size 0 and contains no
  state. A payload stays out of the queue through every sequence of calls after the
  reset that does not add it again.
\<close>

theorem reset_isolation:
  "PriorityQueue_size (clear q) = 0
   \<and> get_priority (clear q) s = None
   \<and> counter (clear q) = 0
   \<and> order_key (store (PriorityQueue_add (clear q) s p) (fresh q)) = 0
   \<and> counter (PriorityQueue_add (clear q) s p) = 1
   \<and> FrontierBestFirst_size (prepare fr gd) = 0
   \<and> is_empty (prepare fr gd)
   \<and> \<not> FrontierBestFirst_contains (prepare fr gd) s
   \<and> counter (priority_queue (prepare fr gd)) = 0
   \<and> ((\<forall>s' p'. Add s' p' \<in> set ops \<longrightarrow> ident s' \<noteq> ident s) \<longrightarrow>
        get_priority (pq_run (clear q) ops) s = None
        \<and> get_priority (pq_run (priority_queue (prepare fr gd)) ops) s = None)"
proof -
  have "(\<forall>s' p'. Add s' p' \<in> set ops \<longrightarrow> ident s' \<noteq> ident s) \<longrightarrow>
        get_priority (pq_run (clear q) ops) s = None
        \<and> get_priority (pq_run (priority_queue (prepare fr gd)) ops) s = None"
  proof
    assume h: "\<forall>s' p'. Add s' p' \<in> set ops \<longrightarrow> ident s' \<noteq> ident s"
    have a: "ident s \<notin> fst ` set (entry_finder (clear q))"
      and b: "ident s \<notin> fst ` set (entry_finder (priority_queue (prepare fr gd)))"
      by (simp_all add: clear_def prepare_def)
    have "ident s \<notin> fst ` set (entry_finder (pq_run (clear q) ops))"
      using a h by (rule not_added_not_tracked)
    moreover have "ident s \<notin> fst ` set (entry_finder (pq_run (priority_queue (prepare fr gd)) ops))"
      using b h by (rule not_added_not_tracked)
    ultimately show "get_priority (pq_run (clear q) ops) s = None
        \<and> get_priority (pq_run (priority_queue (prepare fr gd)) ops) s = None"
      by (simp add: get_priority_None_iff)
  qed
  then show ?thesis by (simp add: frontier_defs queue_defs)
qed

text \<open>
  A was in the queue before \<^verbatim>\<open>clear\<close>; after it, and after B is added and
  popped, A has no priority, while B had one.
\<close>

theorem reset_isolation_witness:
  "get_priority (pq_run PriorityQueue_init [Add \<lparr>ident = ''A'', path_cost = 5\<rparr> 5])
      \<lparr>ident = ''A'', path_cost = 5\<rparr> = Some 5
   \<and> get_priority
        (pq_run (clear (pq_run PriorityQueue_init [Add \<lparr>ident = ''A'', path_cost = 5\<rparr> 5]))
           [Add \<lparr>ident = ''B'', path_cost = 3\<rparr> 3, Pop])
        \<lparr>ident = ''A'', path_cost = 5\<rparr> = None
   \<and> get_priority
        (pq_run (clear (pq_run PriorityQueue_init [Add \<lparr>ident = ''A'', path_cost = 5\<rparr> 5]))
           [Add \<lparr>ident = ''B'', path_cost = 3\<rparr> 3])
        \<lparr>ident = ''B'', path_cost = 3\<rparr> = Some 3"
proof -
  let ?a = "\<lparr>ident = ''A'', path_cost = 5\<rparr>"
  let ?q = "pq_run PriorityQueue_init [Add ?a 5]"
  let ?ops = "[Add \<lparr>ident = ''B'', path_cost = 3\<rparr> 3, Pop]"
  have before: "get_priority ?q ?a = Some 5" by (simp add: eval_defs)
  have hyp: "\<forall>s' p'. Add s' p' \<in> set ?ops \<longrightarrow> ident s' \<noteq> ident ?a" by simp
  from reset_isolation [of ?q ?a 0 "FrontierBestFirst_init :: (string, unit) FrontierBestFirst"
      "()" ?ops] hyp
  have after: "get_priority (pq_run (clear ?q) ?ops) ?a = None" by blast
  have other: "get_priority
        (pq_run (clear ?q) [Add \<lparr>ident = ''B'', path_cost = 3\<rparr> 3])
        \<lparr>ident = ''B'', path_cost = 3\<rparr> = Some 3"
    by (simp add: eval_defs)
  from before after other show ?thesis by (simp only: simp_thms)
qed

subsection \<open>Adding a payload that the index tracks\<close>

lemma length_update_tracked:
  "map_of al k = Some a \<Longrightarrow> length (AList.update k v al) = length al"
  by (induction al) (auto split: if_splits)

lemma pop_keys:
  "PriorityQueue_pop q = (r, q') \<Longrightarrow>
     fst ` set (entry_finder q') \<subseteq> fst ` set (entry_finder q)
     \<and> (\<forall>s. r = Inr s \<longrightarrow> ident s \<in> fst ` set (entry_finder q)
              \<and> ident s \<notin> fst ` set (entry_finder q'))"
proof -
  assume pop: "PriorityQueue_pop q = (r, q')"
  obtain lr h' where loop: "pop_loop (store q) (heap q) = (lr, h')"
    by (cases "pop_loop (store q) (heap q)")
  show ?thesis
  proof (cases lr)
    case (Inl e)
    with pop loop show ?thesis by (auto simp: PriorityQueue_pop_def)
  next
    case (Inr as)
    obtain a s where "as = (a, s)" by (cases as)
    with Inr loop have loop': "pop_loop (store q) (heap q) = (Inr (a, s), h')" by simp
    show ?thesis
    proof (cases "map_of (entry_finder q) (ident s)")
      case None
      with pop loop' show ?thesis by (auto simp: PriorityQueue_pop_def)
    next
      case (Some c)
      with pop loop' have r: "r = Inr s"
        and q': "entry_finder q' = AList.delete (ident s) (entry_finder q)"
        by (auto simp: PriorityQueue_pop_def)
      from Some have "ident s \<in> fst ` set (entry_finder q)"
        by (metis map_of_eq_None_iff option.distinct(1))
      with r show ?thesis by (auto simp only: q' keys_delete sum.inject)
    qed
  qed
qed

lemma popped_payloads_tracked:
  "s \<in> set (popped_payloads n q) \<Longrightarrow> ident s \<in> fst ` set (entry_finder q)"
proof (induction n arbitrary: q)
  case 0
  then show ?case by simp
next
  case (Suc n)
  obtain r q' where pop: "PriorityQueue_pop q = (r, q')" by (cases "PriorityQueue_pop q")
  note keys = pop_keys [OF pop]
  show ?case
  proof (cases r)
    case (Inl e)
    with Suc.prems pop have "s \<in> set (popped_payloads n q')" by simp
    then have "ident s \<in> fst ` set (entry_finder q')" by (rule Suc.IH)
    with keys show ?thesis by blast
  next
    case (Inr s')
    with Suc.prems pop consider "s = s'" | "s \<in> set (popped_payloads n q')" by auto
    then show ?thesis
    proof cases
      case 1
      with keys Inr show ?thesis by blast
    next
      case 2
      then have "ident s \<in> fst ` set (entry_finder q')" by (rule Suc.IH)
      with keys show ?thesis by blast
    qed
  qed
qed

lemma popped_payloads_distinct: "distinct (map ident (popped_payloads n q))"
proof (induction n arbitrary: q)
  case 0
  show ?case by simp
next
  case (Suc n)
  obtain r q' where pop: "PriorityQueue_pop q = (r, q')" by (cases "PriorityQueue_pop q")
  note keys = pop_keys [OF pop]
  show ?case
  proof (cases r)
    case (Inl e)
    with pop Suc.IH [of q'] show ?thesis by simp
  next
    case (Inr s')
    have "ident s' \<notin> ident ` set (popped_payloads n q')"
    proof
      assume "ident s' \<in> ident ` set (popped_payloads n q')"
      then obtain s where "s \<in> set (popped_payloads n q')" "ident s = ident s'" by auto
      with popped_payloads_tracked [of s n q'] have "ident s' \<in> fst ` set (entry_finder q')"
        by simp
      with keys Inr show False by blast
    qed
    with pop Inr Suc.IH [of q'] show ?thesis by simp
  qed
qed

lemma pop_again_raises:
  assumes pop: "PriorityQueue_pop q1 = (Inr s1, q2)"
    and loop: "pop_loop (store q2) (heap q2) = (Inr (b, s2), h')"
    and same: "ident s2 = ident s1"
  shows "PriorityQueue_pop q2 = (Inl KeyError, q2\<lparr>heap := h'\<rparr>)"
proof -
  from pop_keys [OF pop] have "ident s1 \<notin> fst ` set (entry_finder q2)" by blast
  then have "map_of (entry_finder q2) (ident s2) = None"
    by (simp add: same map_of_eq_None_iff)
  with loop show ?thesis by (simp add: PriorityQueue_pop_def)
qed

lemma pop_keys_fst:
  "fst (PriorityQueue_pop q) = Inr s \<Longrightarrow>
     ident s \<in> fst ` set (entry_finder q)
     \<and> ident s \<notin> fst ` set (entry_finder (snd (PriorityQueue_pop q)))"
proof -
  assume "fst (PriorityQueue_pop q) = Inr s"
  then have "PriorityQueue_pop q = (Inr s, snd (PriorityQueue_pop q))"
    by (simp add: prod_eq_iff)
  from pop_keys [OF this] show ?thesis by blast
qed

lemma untracked_never_returned:
  "k \<notin> fst ` set (entry_finder q) \<Longrightarrow> \<forall>s p. Add s p \<in> set ops \<longrightarrow> ident s \<noteq> k \<Longrightarrow>
   returns_of k q ops = 0"
proof (induction ops arbitrary: q)
  case Nil
  show ?case by simp
next
  case (Cons x ops)
  have "k \<notin> fst ` set (entry_finder (pq_run q [x]))"
    using Cons.prems by (intro not_added_not_tracked) auto
  then have step: "k \<notin> fst ` set (entry_finder (pq_step q x))" by (simp add: pq_run_def)
  have rest: "returns_of k (pq_step q x) ops = 0"
    using step Cons.prems(2) by (intro Cons.IH) auto
  have "x = Pop \<Longrightarrow> \<forall>s. fst (PriorityQueue_pop q) = Inr s \<longrightarrow> ident s \<noteq> k"
    using Cons.prems(1) pop_keys_fst by blast
  then show ?case using rest by (cases x) (auto split: sum.splits)
qed

lemma returned_at_most_once:
  "\<forall>s p. Add s p \<in> set ops \<longrightarrow> ident s \<noteq> k \<Longrightarrow> returns_of k q ops \<le> 1"
proof (induction ops arbitrary: q)
  case Nil
  show ?case by simp
next
  case (Cons x ops)
  have rest_ok: "\<forall>s p. Add s p \<in> set ops \<longrightarrow> ident s \<noteq> k" using Cons.prems by auto
  have IH: "returns_of k (pq_step q x) ops \<le> 1" using rest_ok by (rule Cons.IH)
  show ?case
  proof (cases "x = Pop \<and> (\<exists>s. fst (PriorityQueue_pop q) = Inr s \<and> ident s = k)")
    case True
    then obtain s where x: "x = Pop" and s: "fst (PriorityQueue_pop q) = Inr s" "ident s = k"
      by blast
    from pop_keys_fst [OF s(1)] s(2) x have "k \<notin> fst ` set (entry_finder (pq_step q x))"
      by simp
    then have "returns_of k (pq_step q x) ops = 0"
      using rest_ok by (rule untracked_never_returned)
    with x s show ?thesis by simp
  next
    case False
    then have "returns_of k q (x # ops) = returns_of k (pq_step q x) ops"
      by (cases x) (auto split: sum.splits)
    with IH show ?thesis by simp
  qed
qed

subsection \<open>Returning both entries of a payload\<close>

text \<open>
  Two entries of the heap that hold the same payload are both returned by
  \<^verbatim>\<open>pop\<close> when the payload is added again, at a priority above every priority
  in the heap, before each \<^verbatim>\<open>pop\<close>: each \<^verbatim>\<open>pop\<close> then finds the payload
  tracked, and each takes at least one of the earlier entries off the heap.
\<close>

lemma pq_run_append: "pq_run q (xs @ ys) = pq_run (pq_run q xs) ys"
  by (simp add: pq_run_def)

lemma returned_append: "returned q (xs @ ys) = returned q xs @ returned (pq_run q xs) ys"
  by (induction xs arbitrary: q) (simp_all add: pq_run_Nil pq_run_Cons)

lemma pop_fresh: "fresh (snd (PriorityQueue_pop q)) = fresh q"
  by (simp add: PriorityQueue_pop_def split: prod.splits sum.splits option.splits)

lemma round_staged:
  fixes q :: "'k PriorityQueue" and s :: "'k HospitalState"
  assumes st: "staged f0 P q"
  defines "q' \<equiv> pq_run q [Add s P, Pop]"
  shows "staged f0 P q'"
    and "length (old_entries f0 q') \<le> length (old_entries f0 q) - 1"
proof -
  let ?qa = "PriorityQueue_add q s P"
  from st have inv: "queue_inv q" and f0: "f0 \<le> fresh q"
    and pr: "\<And>b. b \<in> set (heap q) \<Longrightarrow>
              (if b < f0 then priority (store q b) < P else P \<le> priority (store q b))"
    by (simp_all add: staged_def)
  from inv have below: "\<And>b. b \<in> set (heap q) \<Longrightarrow> b < fresh q"
    and dh: "distinct (heap q)" by (auto simp: queue_inv_def)
  have hpa: "heap ?qa = heap q @ [fresh q]"
    and sta: "\<And>b. b \<noteq> fresh q \<Longrightarrow> store ?qa b = store q b"
    and new: "priority (store ?qa (fresh q)) = P" "element (store ?qa (fresh q)) = Some s"
    and ixa: "map_of (entry_finder ?qa) (ident s) = Some (fresh q)"
    and fra: "fresh ?qa = Suc (fresh q)"
    by (simp_all add: PriorityQueue_add_def Let_def heappush_def update_conv')
  have inva: "queue_inv ?qa" using inv by (rule queue_inv_add)
  then have dha: "distinct (heap ?qa)" by (simp add: queue_inv_def)
  have q': "q' = snd (PriorityQueue_pop ?qa)" by (simp add: q'_def pq_run_def)
  obtain r h' where loop: "pop_loop (store ?qa) (heap ?qa) = (r, h')"
    by (cases "pop_loop (store ?qa) (heap ?qa)")
  have "live (store ?qa) (fresh q)" "fresh q \<in> set (heap ?qa)"
    by (simp_all add: live_def new hpa)
  with loop obtain c s2 where r: "r = Inr (c, s2)"
    by (cases r) (auto dest: pop_loop_Inl)
  with loop have loop': "pop_loop (store ?qa) (heap ?qa) = (Inr (c, s2), h')" by simp
  have hp': "heap q' = h'" unfolding q' using loop by (rule pop_heap)
  have st': "store q' = store ?qa" unfolding q' by (rule pop_store)
  have fr': "fresh q' = Suc (fresh q)" unfolding q' by (simp add: pop_fresh fra)
  have sub: "set h' \<subseteq> set (heap ?qa)" using loop' by (rule pop_loop_subset)
  have c: "c \<in> set (heap ?qa)" "element (store ?qa c) = Some s2"
    using pop_loop_Inr_in [OF loop'] by simp_all
  have gone: "c \<notin> set h'" using loop' dha by (rule pop_loop_taken)
  have d': "distinct h'" using loop' dha by (rule pop_loop_distinct)
  have old_in: "\<And>b. b \<in> set h' \<Longrightarrow> b < f0 \<Longrightarrow> b \<in> set (heap q) \<and> store q' b = store q b"
  proof -
    fix b assume b: "b \<in> set h'" "b < f0"
    with f0 have ne: "b \<noteq> fresh q" by simp
    with b sub show "b \<in> set (heap q) \<and> store q' b = store q b"
      by (auto simp: hpa st' sta)
  qed
  have prio': "\<And>b. b \<in> set h' \<Longrightarrow>
              (if b < f0 then priority (store q' b) < P else P \<le> priority (store q' b))"
  proof -
    fix b assume b: "b \<in> set h'"
    show "if b < f0 then priority (store q' b) < P else P \<le> priority (store q' b)"
    proof (cases "b = fresh q")
      case True
      with f0 show ?thesis by (simp add: st' new)
    next
      case False
      with b sub have "b \<in> set (heap q)" by (auto simp: hpa)
      from pr [OF this] False show ?thesis by (simp add: st' sta)
    qed
  qed
  have "queue_inv q'" unfolding q' using inva by (rule queue_inv_pop)
  with prio' f0 show "staged f0 P q'" by (simp add: staged_def hp' fr')
  show "length (old_entries f0 q') \<le> length (old_entries f0 q) - 1"
  proof (cases "c < f0")
    case True
    with f0 have "c \<noteq> fresh q" by simp
    with c(1) have cq: "c \<in> set (heap q)" by (simp add: hpa)
    have "set (old_entries f0 q') \<subseteq> set (old_entries f0 q) - {c}"
      using old_in gone by (auto simp: old_entries_def hp')
    moreover have "c \<in> set (old_entries f0 q)" using cq True by (simp add: old_entries_def)
    ultimately have "set (old_entries f0 q') \<subset> set (old_entries f0 q)" by blast
    then have "card (set (old_entries f0 q')) < card (set (old_entries f0 q))"
      by (intro psubset_card_mono) simp_all
    moreover have "distinct (old_entries f0 q')" "distinct (old_entries f0 q)"
      using d' dh by (simp_all add: old_entries_def hp')
    ultimately have "length (old_entries f0 q') < length (old_entries f0 q)"
      by (simp add: distinct_card)
    then show ?thesis by simp
  next
    case False
    from prio' have cP: "P \<le> priority (store ?qa c)"
    proof -
      show ?thesis
      proof (cases "c = fresh q")
        case True
        then show ?thesis by (simp add: new)
      next
        case ne: False
        with c(1) have "c \<in> set (heap q)" by (simp add: hpa)
        from pr [OF this] False ne show ?thesis by (simp add: sta)
      qed
    qed
    have "old_entries f0 q' = []"
    proof (rule ccontr)
      assume "old_entries f0 q' \<noteq> []"
      then obtain b where b: "b \<in> set h'" "b < f0"
        by (auto simp: old_entries_def hp' filter_empty_conv)
      from pop_loop_rest_ge [OF loop' b(1)]
      have "priority (store ?qa c) \<le> priority (store ?qa b)" by (rule key_le_priority)
      moreover from prio' [OF b(1)] b(2) have "priority (store ?qa b) < P" by (simp add: st')
      ultimately show False using cP by simp
    qed
    then show ?thesis by simp
  qed
qed

lemma round_target:
  assumes st: "staged f0 P q"
    and t: "t \<in> set (heap q)" "t < f0" "element (store q t) = Some u" "ident u = ident s"
  defines "q' \<equiv> pq_run q [Add s P, Pop]"
  shows "(t \<in> set (heap q') \<and> element (store q' t) = Some u)
         \<or> returned q [Add s P, Pop] = [(t, u)]"
proof -
  let ?qa = "PriorityQueue_add q s P"
  from st have inv: "queue_inv q" and f0: "f0 \<le> fresh q"
    and pr: "\<And>b. b \<in> set (heap q) \<Longrightarrow>
              (if b < f0 then priority (store q b) < P else P \<le> priority (store q b))"
    by (simp_all add: staged_def)
  from inv have below: "\<And>b. b \<in> set (heap q) \<Longrightarrow> b < fresh q"
    and dh: "distinct (heap q)" by (auto simp: queue_inv_def)
  have hpa: "heap ?qa = heap q @ [fresh q]"
    and sta: "\<And>b. b \<noteq> fresh q \<Longrightarrow> store ?qa b = store q b"
    and new: "priority (store ?qa (fresh q)) = P" "element (store ?qa (fresh q)) = Some s"
    and ixa: "map_of (entry_finder ?qa) (ident s) = Some (fresh q)"
    and fra: "fresh ?qa = Suc (fresh q)"
    by (simp_all add: PriorityQueue_add_def Let_def heappush_def update_conv')
  have inva: "queue_inv ?qa" using inv by (rule queue_inv_add)
  then have dha: "distinct (heap ?qa)" by (simp add: queue_inv_def)
  have q': "q' = snd (PriorityQueue_pop ?qa)" by (simp add: q'_def pq_run_def)
  obtain r h' where loop: "pop_loop (store ?qa) (heap ?qa) = (r, h')"
    by (cases "pop_loop (store ?qa) (heap ?qa)")
  have "live (store ?qa) (fresh q)" "fresh q \<in> set (heap ?qa)"
    by (simp_all add: live_def new hpa)
  with loop obtain c s2 where r: "r = Inr (c, s2)"
    by (cases r) (auto dest: pop_loop_Inl)
  with loop have loop': "pop_loop (store ?qa) (heap ?qa) = (Inr (c, s2), h')" by simp
  have hp': "heap q' = h'" unfolding q' using loop by (rule pop_heap)
  have st': "store q' = store ?qa" unfolding q' by (rule pop_store)
  have fr': "fresh q' = Suc (fresh q)" unfolding q' by (simp add: pop_fresh fra)
  have sub: "set h' \<subseteq> set (heap ?qa)" using loop' by (rule pop_loop_subset)
  have c: "c \<in> set (heap ?qa)" "element (store ?qa c) = Some s2"
    using pop_loop_Inr_in [OF loop'] by simp_all
  have gone: "c \<notin> set h'" using loop' dha by (rule pop_loop_taken)
  have d': "distinct h'" using loop' dha by (rule pop_loop_distinct)
  have old_in: "\<And>b. b \<in> set h' \<Longrightarrow> b < f0 \<Longrightarrow> b \<in> set (heap q) \<and> store q' b = store q b"
  proof -
    fix b assume b: "b \<in> set h'" "b < f0"
    with f0 have ne: "b \<noteq> fresh q" by simp
    with b sub show "b \<in> set (heap q) \<and> store q' b = store q b"
      by (auto simp: hpa st' sta)
  qed
  have prio': "\<And>b. b \<in> set h' \<Longrightarrow>
              (if b < f0 then priority (store q' b) < P else P \<le> priority (store q' b))"
  proof -
    fix b assume b: "b \<in> set h'"
    show "if b < f0 then priority (store q' b) < P else P \<le> priority (store q' b)"
    proof (cases "b = fresh q")
      case True
      with f0 show ?thesis by (simp add: st' new)
    next
      case False
      with b sub have "b \<in> set (heap q)" by (auto simp: hpa)
      from pr [OF this] False show ?thesis by (simp add: st' sta)
    qed
  qed
  show "(t \<in> set (heap q') \<and> element (store q' t) = Some u)
         \<or> returned q [Add s P, Pop] = [(t, u)]"
  proof (cases "t = c")
    case True
    from t(2) f0 have ne: "t \<noteq> fresh q" by simp
    with c(2) True t(3) have s2: "s2 = u" by (simp add: sta)
    from ixa t(4) s2 have tracked: "map_of (entry_finder ?qa) (ident s2) = Some (fresh q)" by simp
    from loop' tracked have "popped_entry ?qa = Some c" "fst (PriorityQueue_pop ?qa) = Inr s2"
      by (simp_all add: popped_entry_def PriorityQueue_pop_def)
    then have "returned q [Add s P, Pop] = [(t, u)]" using True s2 by simp
    then show ?thesis ..
  next
    case False
    from t(2) f0 have ne: "t \<noteq> fresh q" by simp
    have ta: "t \<in> set (heap ?qa)" using t(1) by (simp add: hpa)
    have "live (store ?qa) t" using t(3) ne by (simp add: live_def sta)
    with pop_loop_removed [OF loop' ta] False have "t \<in> set h'" by blast
    then show ?thesis using t(3) ne by (simp add: hp' st' sta)
  qed
qed

lemma rounds_staged:
  "staged f0 P q \<Longrightarrow>
   staged f0 P (pq_run q (concat (replicate n [Add s P, Pop])))
   \<and> length (old_entries f0 (pq_run q (concat (replicate n [Add s P, Pop]))))
       \<le> length (old_entries f0 q) - n"
proof (induction n arbitrary: q)
  case 0
  then show ?case by (simp add: pq_run_Nil)
next
  case (Suc n)
  let ?q1 = "pq_run q [Add s P, Pop]"
  let ?rest = "concat (replicate n [Add s P, Pop])"
  have run: "pq_run q (concat (replicate (Suc n) [Add s P, Pop])) = pq_run ?q1 ?rest"
    by (simp add: pq_run_def)
  from round_staged [OF Suc.prems] have s1: "staged f0 P ?q1"
    and l1: "length (old_entries f0 ?q1) \<le> length (old_entries f0 q) - 1" by simp_all
  from Suc.IH [OF s1] have "staged f0 P (pq_run ?q1 ?rest)"
    and "length (old_entries f0 (pq_run ?q1 ?rest)) \<le> length (old_entries f0 ?q1) - n"
    by simp_all
  with l1 show ?case unfolding run by simp
qed

lemma rounds_target:
  "staged f0 P q \<Longrightarrow> t \<in> set (heap q) \<Longrightarrow> t < f0 \<Longrightarrow> element (store q t) = Some u \<Longrightarrow>
   ident u = ident s \<Longrightarrow>
   t \<in> set (heap (pq_run q (concat (replicate n [Add s P, Pop]))))
   \<or> (t, u) \<in> set (returned q (concat (replicate n [Add s P, Pop])))"
proof (induction n arbitrary: q)
  case 0
  then show ?case by (simp add: pq_run_Nil)
next
  case (Suc n)
  let ?q1 = "pq_run q [Add s P, Pop]"
  let ?rest = "concat (replicate n [Add s P, Pop])"
  have run: "pq_run q (concat (replicate (Suc n) [Add s P, Pop])) = pq_run ?q1 ?rest"
    by (simp add: pq_run_def)
  have ret: "returned q (concat (replicate (Suc n) [Add s P, Pop]))
               = returned q [Add s P, Pop] @ returned ?q1 ?rest"
    using returned_append [of q "[Add s P, Pop]" ?rest] by simp
  from round_staged [OF Suc.prems(1)] have s1: "staged f0 P ?q1" by simp
  from round_target [OF Suc.prems]
  consider "t \<in> set (heap ?q1)" "element (store ?q1 t) = Some u"
    | "returned q [Add s P, Pop] = [(t, u)]" by blast
  then show ?case
  proof cases
    case 1
    from Suc.IH [OF s1 1(1) Suc.prems(3) 1(2) Suc.prems(5)]
    show ?thesis unfolding run ret by auto
  next
    case 2
    then show ?thesis unfolding ret by simp
  qed
qed

lemma both_entries_returnable:
  fixes q :: "'k PriorityQueue" and s :: "'k HospitalState"
  assumes inv: "queue_inv q"
    and a: "a \<in> set (heap q)" "element (store q a) = Some u" "ident u = ident s"
    and b: "b \<in> set (heap q)" "element (store q b) = Some v" "ident v = ident s"
  shows "\<exists>later. (a, u) \<in> set (returned q later) \<and> (b, v) \<in> set (returned q later)"
proof -
  define P where "P = Max (insert 0 ((\<lambda>c. priority (store q c)) ` set (heap q))) + 1"
  define later where "later = concat (replicate (length (heap q)) [Add s P, Pop])"
  have big: "\<And>c. c \<in> set (heap q) \<Longrightarrow> priority (store q c) < P"
  proof -
    fix c assume "c \<in> set (heap q)"
    then have "priority (store q c) \<le> Max (insert 0 ((\<lambda>c. priority (store q c)) ` set (heap q)))"
      by (intro Max_ge) simp_all
    then show "priority (store q c) < P" by (simp add: P_def)
  qed
  from inv have below: "\<And>c. c \<in> set (heap q) \<Longrightarrow> c < fresh q" by (auto simp: queue_inv_def)
  have st: "staged (fresh q) P q" using inv big below by (simp add: staged_def)
  have "length (old_entries (fresh q) (pq_run q later)) \<le> length (old_entries (fresh q) q) - length (heap q)"
    unfolding later_def using rounds_staged [OF st] by blast
  moreover have "length (old_entries (fresh q) q) \<le> length (heap q)" by (simp add: old_entries_def)
  ultimately have none: "old_entries (fresh q) (pq_run q later) = []" by simp
  have out: "\<And>c. c < fresh q \<Longrightarrow> c \<notin> set (heap (pq_run q later))"
  proof
    fix c assume "c < fresh q" "c \<in> set (heap (pq_run q later))"
    then have "c \<in> set (old_entries (fresh q) (pq_run q later))" by (simp add: old_entries_def)
    with none show False by simp
  qed
  from rounds_target [OF st a(1) below [OF a(1)] a(2,3), of "length (heap q)"] out [OF below [OF a(1)]]
  have "(a, u) \<in> set (returned q later)" by (simp add: later_def)
  moreover
  from rounds_target [OF st b(1) below [OF b(1)] b(2,3), of "length (heap q)"] out [OF below [OF b(1)]]
  have "(b, v) \<in> set (returned q later)" by (simp add: later_def)
  ultimately show ?thesis by blast
qed

text \<open>
  After X is added twice, two calls of \<^verbatim>\<open>pop\<close> in a row do not both return X: the
  first returns X and the second raises \<^verbatim>\<open>KeyError\<close>.
\<close>

theorem second_pop_of_duplicate_raises:
  "fst (PriorityQueue_pop (pq_run PriorityQueue_init
         [Add \<lparr>ident = ''X'', path_cost = 5\<rparr> 5, Add \<lparr>ident = ''X'', path_cost = 5\<rparr> 3]))
     = Inr \<lparr>ident = ''X'', path_cost = 5\<rparr>
   \<and> fst (PriorityQueue_pop (pq_run PriorityQueue_init
         [Add \<lparr>ident = ''X'', path_cost = 5\<rparr> 5, Add \<lparr>ident = ''X'', path_cost = 5\<rparr> 3, Pop]))
     = Inl KeyError"
  by (simp add: eval_defs)

text \<open>
  Claim C10. \<^verbatim>\<open>PriorityQueue.add\<close> called with a payload that the index tracks does
  not fail: it pushes a second live entry, the index now maps the payload to it, and the
  earlier entry \<open>a\<close> is untouched, live and in the heap, while the size stays the
  same. The payload can then be returned by two calls of \<^verbatim>\<open>pop\<close>, one for each
  entry: there is a later sequence of calls in which one \<^verbatim>\<open>pop\<close> returns it from
  the earlier entry and another returns it from the new one. Such a sequence adds the
  payload again between the two: in a row of calls of \<^verbatim>\<open>pop\<close> no two returned
  payloads are equal; the \<^verbatim>\<open>pop\<close> that follows one that returned a payload raises
  \<^verbatim>\<open>KeyError\<close> when its loop stops at another live entry of that payload; and
  through any later sequence of calls that does not add the payload again, at most one
  \<^verbatim>\<open>pop\<close> returns it.
\<close>

theorem add_tracked_payload:
  assumes q: "q = pq_run PriorityQueue_init ops"
    and tracked: "map_of (entry_finder q) (ident s) = Some a"
  shows "heap (PriorityQueue_add q s p) = heap q @ [fresh q]
         \<and> store (PriorityQueue_add q s p) (fresh q)
             = \<lparr>priority = p, order_key = - int (counter q), element = Some s\<rparr>
         \<and> map_of (entry_finder (PriorityQueue_add q s p)) (ident s) = Some (fresh q)
         \<and> a \<noteq> fresh q \<and> a \<in> set (heap (PriorityQueue_add q s p))
         \<and> store (PriorityQueue_add q s p) a = store q a
         \<and> (\<exists>s0. element (store (PriorityQueue_add q s p) a) = Some s0 \<and> ident s0 = ident s)
         \<and> PriorityQueue_size (PriorityQueue_add q s p) = PriorityQueue_size q
         \<and> (\<exists>later u. ident u = ident s
                \<and> (a, u) \<in> set (returned (PriorityQueue_add q s p) later)
                \<and> (fresh q, s) \<in> set (returned (PriorityQueue_add q s p) later))
         \<and> distinct (map ident (popped_payloads n (PriorityQueue_add q s p)))
         \<and> (PriorityQueue_pop q1 = (Inr s1, q2)
              \<and> pop_loop (store q2) (heap q2) = (Inr (b, s2), h') \<and> ident s2 = ident s1 \<longrightarrow>
            PriorityQueue_pop q2 = (Inl KeyError, q2\<lparr>heap := h'\<rparr>))
         \<and> ((\<forall>s' p'. Add s' p' \<in> set later \<longrightarrow> ident s' \<noteq> ident s) \<longrightarrow>
              returns_of (ident s) (PriorityQueue_add q s p) later \<le> 1)"
proof -
  let ?q' = "PriorityQueue_add q s p"
  have inv: "queue_inv q" unfolding q by (rule queue_inv_reachable)
  with tracked obtain s0 where a: "a \<in> set (heap q)" "element (store q a) = Some s0" "ident s0 = ident s"
    unfolding queue_inv_def by blast
  from inv a(1) have ne: "a \<noteq> fresh q" by (auto simp: queue_inv_def)
  have 1: "heap ?q' = heap q @ [fresh q]"
    and 2: "store ?q' (fresh q) = \<lparr>priority = p, order_key = - int (counter q), element = Some s\<rparr>"
    and 3: "map_of (entry_finder ?q') (ident s) = Some (fresh q)"
    by (simp_all add: PriorityQueue_add_def Let_def heappush_def update_conv')
  have 4: "a \<in> set (heap ?q')" using a(1) by (simp add: 1)
  have 5: "store ?q' a = store q a" using ne by (simp add: PriorityQueue_add_def Let_def)
  have 6: "\<exists>s0. element (store ?q' a) = Some s0 \<and> ident s0 = ident s"
    using a by (simp add: 5)
  have 7: "PriorityQueue_size ?q' = PriorityQueue_size q"
    using tracked by (simp add: PriorityQueue_size_def PriorityQueue_add_def Let_def
        length_update_tracked)
  have 11: "\<exists>later u. ident u = ident s
                \<and> (a, u) \<in> set (returned ?q' later)
                \<and> (fresh q, s) \<in> set (returned ?q' later)"
  proof -
    have "queue_inv ?q'" using inv by (rule queue_inv_add)
    moreover have "a \<in> set (heap ?q')" using a(1) by (simp add: 1)
    moreover have "element (store ?q' a) = Some s0" using a(2) by (simp add: 5)
    moreover note a(3)
    moreover have "fresh q \<in> set (heap ?q')" by (simp add: 1)
    moreover have "element (store ?q' (fresh q)) = Some s" by (simp add: 2)
    ultimately have "\<exists>later. (a, s0) \<in> set (returned ?q' later)
                       \<and> (fresh q, s) \<in> set (returned ?q' later)"
      by (rule both_entries_returnable) simp
    with a(3) show ?thesis by blast
  qed
  have 8: "distinct (map ident (popped_payloads n ?q'))" by (rule popped_payloads_distinct)
  have 9: "PriorityQueue_pop q1 = (Inr s1, q2)
              \<and> pop_loop (store q2) (heap q2) = (Inr (b, s2), h') \<and> ident s2 = ident s1 \<longrightarrow>
            PriorityQueue_pop q2 = (Inl KeyError, q2\<lparr>heap := h'\<rparr>)"
    using pop_again_raises by blast
  have 10: "(\<forall>s' p'. Add s' p' \<in> set later \<longrightarrow> ident s' \<noteq> ident s) \<longrightarrow>
              returns_of (ident s) ?q' later \<le> 1"
  proof
    assume "\<forall>s' p'. Add s' p' \<in> set later \<longrightarrow> ident s' \<noteq> ident s"
    then show "returns_of (ident s) ?q' later \<le> 1" by (rule returned_at_most_once)
  qed
  from 1 2 3 ne 4 5 6 7 11 8 9 10 show ?thesis by (simp only: simp_thms)
qed

text \<open>
  X is added at priority 5 and again at priority 3. Of three calls of \<^verbatim>\<open>pop\<close> in
  a row one returns X, and the second raises \<^verbatim>\<open>KeyError\<close>; when X is added a
  third time after the first \<^verbatim>\<open>pop\<close>, the next \<^verbatim>\<open>pop\<close> returns X from the
  earlier entry.
\<close>

theorem add_tracked_payload_witness:
  "map_of (entry_finder (pq_run PriorityQueue_init [Add \<lparr>ident = ''X'', path_cost = 5\<rparr> 5]))
      (ident \<lparr>ident = ''X'', path_cost = 5\<rparr>) = Some 0
   \<and> heap (PriorityQueue_add (pq_run PriorityQueue_init [Add \<lparr>ident = ''X'', path_cost = 5\<rparr> 5])
        \<lparr>ident = ''X'', path_cost = 5\<rparr> 3) = [0, Suc 0]
   \<and> live (store (PriorityQueue_add (pq_run PriorityQueue_init [Add \<lparr>ident = ''X'', path_cost = 5\<rparr> 5])
        \<lparr>ident = ''X'', path_cost = 5\<rparr> 3)) 0
   \<and> PriorityQueue_size (PriorityQueue_add (pq_run PriorityQueue_init [Add \<lparr>ident = ''X'', path_cost = 5\<rparr> 5])
        \<lparr>ident = ''X'', path_cost = 5\<rparr> 3) = 1
   \<and> PriorityQueue_pop (pq_run PriorityQueue_init
         [Add \<lparr>ident = ''X'', path_cost = 5\<rparr> 5, Add \<lparr>ident = ''X'', path_cost = 5\<rparr> 3])
     = (Inr \<lparr>ident = ''X'', path_cost = 5\<rparr>,
        pq_run PriorityQueue_init
         [Add \<lparr>ident = ''X'', path_cost = 5\<rparr> 5, Add \<lparr>ident = ''X'', path_cost = 5\<rparr> 3, Pop])
   \<and> pop_loop (store (pq_run PriorityQueue_init
         [Add \<lparr>ident = ''X'', path_cost = 5\<rparr> 5, Add \<lparr>ident = ''X'', path_cost = 5\<rparr> 3, Pop]))
        (heap (pq_run PriorityQueue_init
         [Add \<lparr>ident = ''X'', path_cost = 5\<rparr> 5, Add \<lparr>ident = ''X'', path_cost = 5\<rparr> 3, Pop]))
     = (Inr (0, \<lparr>ident = ''X'', path_cost = 5\<rparr>), [])
   \<and> PriorityQueue_pop (pq_run PriorityQueue_init
         [Add \<lparr>ident = ''X'', path_cost = 5\<rparr> 5, Add \<lparr>ident = ''X'', path_cost = 5\<rparr> 3, Pop])
     = (Inl KeyError,
        (pq_run PriorityQueue_init
         [Add \<lparr>ident = ''X'', path_cost = 5\<rparr> 5, Add \<lparr>ident = ''X'', path_cost = 5\<rparr> 3, Pop])
        \<lparr>heap := []\<rparr>)
   \<and> returned
        (PriorityQueue_add (pq_run PriorityQueue_init [Add \<lparr>ident = ''X'', path_cost = 5\<rparr> 5])
          \<lparr>ident = ''X'', path_cost = 5\<rparr> 3)
        [Pop, Add \<lparr>ident = ''X'', path_cost = 5\<rparr> 9, Pop]
     = [(Suc 0, \<lparr>ident = ''X'', path_cost = 5\<rparr>), (0, \<lparr>ident = ''X'', path_cost = 5\<rparr>)]
   \<and> returns_of ''X''
        (PriorityQueue_add (pq_run PriorityQueue_init [Add \<lparr>ident = ''X'', path_cost = 5\<rparr> 5])
          \<lparr>ident = ''X'', path_cost = 5\<rparr> 3)
        [Pop, Pop, Pop] = 1"
proof -
  let ?x = "\<lparr>ident = ''X'', path_cost = 5\<rparr>"
  let ?ops = "[Add ?x 5]"
  let ?q = "pq_run PriorityQueue_init ?ops"
  let ?q1 = "pq_run PriorityQueue_init [Add ?x 5, Add ?x 3]"
  let ?q2 = "pq_run PriorityQueue_init [Add ?x 5, Add ?x 3, Pop]"
  have tracked: "map_of (entry_finder ?q) (ident ?x) = Some 0"
    by (simp add: eval_defs)
  have fresh: "fresh ?q = Suc 0" "heap ?q = [0]" "PriorityQueue_size ?q = 1"
    by (simp_all add: eval_defs)
  have q2: "?q2 = snd (PriorityQueue_pop ?q1)" by (simp add: pq_run_def)
  have "fst (PriorityQueue_pop ?q1) = Inr ?x" by (simp add: eval_defs)
  then have pop1: "PriorityQueue_pop ?q1 = (Inr ?x, ?q2)"
    unfolding q2 by (simp add: prod_eq_iff)
  have loop2: "pop_loop (store ?q2) (heap ?q2) = (Inr (0, ?x), [])"
    by (simp add: eval_defs)
  let ?later = "[Pop, Pop, Pop]"
  have no_add: "\<forall>s' p'. Add s' p' \<in> set ?later \<longrightarrow> ident s' \<noteq> ident ?x" by simp
  have once: "returns_of ''X'' (PriorityQueue_add ?q ?x 3) ?later = 1"
    by (simp add: eval_defs)
  have twice: "returned (PriorityQueue_add ?q ?x 3) [Pop, Add ?x 9, Pop]
                 = [(Suc 0, ?x), (0, ?x)]"
    by (simp add: eval_defs)
  note inst = add_tracked_payload [OF refl tracked, of 3 2 ?q1 ?x ?q2 0 ?x "[]" ?later]
  from inst have "(\<forall>s' p'. Add s' p' \<in> set ?later \<longrightarrow> ident s' \<noteq> ident ?x) \<longrightarrow>
      returns_of (ident ?x) (PriorityQueue_add ?q ?x 3) ?later \<le> 1"
    by (elim conjE) assumption
  with no_add have "returns_of (ident ?x) (PriorityQueue_add ?q ?x 3) ?later \<le> 1"
    by (rule rev_mp)
  from inst have "heap (PriorityQueue_add ?q ?x 3) = heap ?q @ [fresh ?q]"
    by (elim conjE) assumption
  then have a: "heap (PriorityQueue_add ?q ?x 3) = [0, Suc 0]" by (simp only: fresh append.simps)
  from inst
  have "\<exists>s0. element (store (PriorityQueue_add ?q ?x 3) 0) = Some s0 \<and> ident s0 = ident ?x"
    by (elim conjE) assumption
  then have b: "live (store (PriorityQueue_add ?q ?x 3)) 0" by (auto simp: live_def)
  from inst have "PriorityQueue_size (PriorityQueue_add ?q ?x 3) = PriorityQueue_size ?q"
    by (elim conjE) assumption
  then have c: "PriorityQueue_size (PriorityQueue_add ?q ?x 3) = 1" by (simp only: fresh)
  from inst have "PriorityQueue_pop ?q1 = (Inr ?x, ?q2)
      \<and> pop_loop (store ?q2) (heap ?q2) = (Inr (0, ?x), []) \<and> ident ?x = ident ?x \<longrightarrow>
      PriorityQueue_pop ?q2 = (Inl KeyError, ?q2\<lparr>heap := []\<rparr>)"
    by (elim conjE) assumption
  with pop1 loop2 have d: "PriorityQueue_pop ?q2 = (Inl KeyError, ?q2\<lparr>heap := []\<rparr>)"
    by (simp only: simp_thms)
  from tracked a b c pop1 loop2 d twice once show ?thesis by (simp only: simp_thms)
qed

end
